theory Spec2Isabelle
  imports Main "HOL-Library.Multiset"
begin

section \<open>Data model\<close>

text \<open>
  Node numbers (Go \<open>type NI int32\<close>) and path lengths (Go \<open>int\<close>) are modelled as
  unbounded integers; every slice access checks its index, so that an access the Go
  runtime answers with a panic is the value \<open>Inl IndexOutOfRange\<close> here. The loop
  counter \<open>level\<close> of \<open>BreadthFirst\<close> starts at 1 and is only incremented: it is a
  natural number.
\<close>

type_synonym NI = int

type_synonym AdjacencyList = "NI list list"

datatype error = IndexOutOfRange | BitOutOfRange

record PathEnd =
  From :: NI
  Len :: int

text \<open>
  \<open>bits.Bits\<close> of the external package \<open>github.com/soniakeys/bits\<close>: a fixed number
  of bits, here a list of booleans. \<open>Bit\<close> and \<open>SetBit\<close> panic on a bit number out of
  range; \<open>New n\<close> has \<open>n\<close> zero bits.
\<close>

type_synonym Bits = "bool list"

definition New :: "nat \<Rightarrow> Bits" where
  "New n = replicate n False"

definition Bit :: "Bits \<Rightarrow> int \<Rightarrow> error + bool" where
  "Bit bs n = (if n < 0 \<or> int (length bs) \<le> n then Inl BitOutOfRange else Inr (bs ! nat n))"

definition SetBit :: "Bits \<Rightarrow> int \<Rightarrow> bool \<Rightarrow> error + Bits" where
  "SetBit bs n v = (if n < 0 \<or> int (length bs) \<le> n then Inl BitOutOfRange else Inr (bs[nat n := v]))"

definition ClearAll :: "Bits \<Rightarrow> Bits" where
  "ClearAll bs = replicate (length bs) False"

definition SetAll :: "Bits \<Rightarrow> Bits" where
  "SetAll bs = replicate (length bs) True"

text \<open>
  The \<open>FromList\<close> struct. \<open>Paths\<close> is a Go slice that may be nil, which
  \<open>BreadthFirst\<close> tests: \<open>None\<close> is the nil slice.
\<close>

record FromList =
  Paths :: "PathEnd list option"
  Leaves :: Bits
  MaxLen :: int

text \<open>
  Modelled from the spec: \<open>NewFromList\<close> is declared in a file that is not part of the
  sources at hand. The spec has a FromList created empty with all entries zeroed; the
  leaves bitset and \<open>MaxLen\<close> are Go zero values.
\<close>

definition NewFromList :: "nat \<Rightarrow> FromList" where
  "NewFromList n = \<lparr>Paths = Some (replicate n \<lparr>From = 0, Len = 0\<rparr>), Leaves = [], MaxLen = 0\<rparr>"

section \<open>Traversal configuration\<close>

text \<open>
  The visitor callbacks are Go closures. A callback is modelled as a function on a caller
  state \<open>'s\<close> that it may read and update; it has no access to the graph, the bitsets or
  the FromList of the traversal. The random source \<open>*rand.Rand\<close> is a generator state
  \<open>'r\<close> together with its \<open>Perm\<close> method. Every callback invocation is also recorded,
  in order, in a log of events.
\<close>

datatype event =
  NodeVisit NI
  | OkNodeVisit NI bool
  | ArcVisit NI int
  | OkArcVisit NI int bool

record ('s, 'r) config =
  start :: NI
  arcVisitor :: "('s \<Rightarrow> NI \<Rightarrow> int \<Rightarrow> 's) option"
  fromList :: "FromList option"
  nodeVisitor :: "('s \<Rightarrow> NI \<Rightarrow> 's) option"
  okArcVisitor :: "('s \<Rightarrow> NI \<Rightarrow> int \<Rightarrow> bool \<times> 's) option"
  okNodeVisitor :: "('s \<Rightarrow> NI \<Rightarrow> bool \<times> 's) option"
  rand :: "('r \<Rightarrow> nat \<Rightarrow> nat list \<times> 'r) option"
  visBits :: "Bits option"
  pathBits :: "Bits option"

text \<open>The part of the world outside the traversal: caller state, generator state, event log.\<close>

record ('s, 'r) world =
  ust :: 's
  rnd :: 'r
  trace :: "event list"

text \<open>
  Modelled from the spec: the option constructors (\<open>From\<close>, \<open>NodeVisitor\<close>, ...) are
  declared in a file that is not part of the sources at hand. By the spec's option table
  each option sets its own field of the configuration and nothing else.
\<close>

datatype ('s, 'r) TraverseOption =
  ArcVisitor "'s \<Rightarrow> NI \<Rightarrow> int \<Rightarrow> 's"
  | FromOpt FromList
  | NodeVisitor "'s \<Rightarrow> NI \<Rightarrow> 's"
  | OkArcVisitor "'s \<Rightarrow> NI \<Rightarrow> int \<Rightarrow> bool \<times> 's"
  | OkNodeVisitor "'s \<Rightarrow> NI \<Rightarrow> bool \<times> 's"
  | Rand "'r \<Rightarrow> nat \<Rightarrow> nat list \<times> 'r"
  | Visited Bits
  | PathBits Bits

fun apply_option :: "('s, 'r) TraverseOption \<Rightarrow> ('s, 'r) config \<Rightarrow> ('s, 'r) config" where
  "apply_option (ArcVisitor v) cf = cf\<lparr>arcVisitor := Some v\<rparr>"
| "apply_option (FromOpt f) cf = cf\<lparr>fromList := Some f\<rparr>"
| "apply_option (NodeVisitor v) cf = cf\<lparr>nodeVisitor := Some v\<rparr>"
| "apply_option (OkArcVisitor v) cf = cf\<lparr>okArcVisitor := Some v\<rparr>"
| "apply_option (OkNodeVisitor v) cf = cf\<lparr>okNodeVisitor := Some v\<rparr>"
| "apply_option (Rand r) cf = cf\<lparr>rand := Some r\<rparr>"
| "apply_option (Visited bs) cf = cf\<lparr>visBits := Some bs\<rparr>"
| "apply_option (PathBits bs) cf = cf\<lparr>pathBits := Some bs\<rparr>"

text \<open>\<open>cf := &config{start: start}; for _, o := range opt { o(cf) }\<close>\<close>

definition new_config :: "NI \<Rightarrow> ('s, 'r) config" where
  "new_config s = \<lparr>start = s, arcVisitor = None, fromList = None, nodeVisitor = None,
     okArcVisitor = None, okNodeVisitor = None, rand = None, visBits = None, pathBits = None\<rparr>"

definition configure :: "NI \<Rightarrow> ('s, 'r) TraverseOption list \<Rightarrow> ('s, 'r) config" where
  "configure s opt = foldl (\<lambda>cf op. apply_option op cf) (new_config s) opt"

text \<open>The two node callbacks, as both traversals invoke them on a node taken up:
  the plain visitor first, then the conditional one, whose answer is returned.\<close>

definition visit_node :: "('s, 'r) config \<Rightarrow> NI \<Rightarrow> ('s, 'r) world \<Rightarrow> bool \<times> ('s, 'r) world" where
  "visit_node cf n w =
     (let w1 = (case nodeVisitor cf of
                  None \<Rightarrow> w
                | Some v \<Rightarrow> w\<lparr>ust := v (ust w) n, trace := trace w @ [NodeVisit n]\<rparr>)
      in case okNodeVisitor cf of
           None \<Rightarrow> (True, w1)
         | Some v \<Rightarrow> (let r = v (ust w1) n
                      in (fst r, w1\<lparr>ust := snd r, trace := trace w1 @ [OkNodeVisit n (fst r)]\<rparr>)))"

section \<open>BreadthFirst\<close>

text \<open>
  The state of a breadth-first traversal: the slice \<open>rp\<close> (the \<open>Paths\<close> of the
  FromList written to), \<open>f.MaxLen\<close>, and the world. Two more fields only record what
  happened: \<open>wlog\<close> lists the nodes in the order their \<open>PathEnd\<close> was assigned, and
  \<open>fronts\<close> lists the frontiers in the order the outer loop took them up.
\<close>

record ('s, 'r) bfs_state =
  rp :: "PathEnd list"
  maxLen :: int
  bworld :: "('s, 'r) world"
  wlog :: "NI list"
  fronts :: "NI list list"

text \<open>\<open>for _, nb := range g[n] { if rp[nb].Len == 0 { next = append(next, nb); rp[nb] = PathEnd{From: n, Len: level} } }\<close>\<close>

fun scan_arcs :: "NI \<Rightarrow> nat \<Rightarrow> NI list \<Rightarrow> NI list \<times> ('s, 'r) bfs_state
    \<Rightarrow> error + NI list \<times> ('s, 'r) bfs_state" where
  "scan_arcs n level [] (next, st) = Inr (next, st)"
| "scan_arcs n level (nb # nbs) (next, st) =
     (if nb < 0 \<or> int (length (rp st)) \<le> nb then Inl IndexOutOfRange
      else if Len (rp st ! nat nb) = 0
        then scan_arcs n level nbs
               (next @ [nb],
                st\<lparr>rp := (rp st)[nat nb := \<lparr>From = n, Len = int level\<rparr>], wlog := wlog st @ [nb]\<rparr>)
        else scan_arcs n level nbs (next, st))"

text \<open>
  The body of the frontier loop for one node \<open>n\<close>. The boolean of the result is False when
  the conditional visitor said stop, where the Go function returns.
\<close>

definition bfs_node :: "('s, 'r) config \<Rightarrow> AdjacencyList \<Rightarrow> nat \<Rightarrow> NI \<Rightarrow> NI list \<times> ('s, 'r) bfs_state
    \<Rightarrow> error + bool \<times> NI list \<times> ('s, 'r) bfs_state" where
  "bfs_node cf g level n acc =
     (case acc of (next, st) \<Rightarrow>
        (case visit_node cf n (bworld st) of (ok, w) \<Rightarrow>
           if \<not> ok then Inr (False, next, st\<lparr>bworld := w\<rparr>)
           else if n < 0 \<or> int (length g) \<le> n then Inl IndexOutOfRange
           else (case scan_arcs n level (g ! nat n) (next, st\<lparr>bworld := w\<rparr>) of
                   Inl e \<Rightarrow> Inl e
                 | Inr acc' \<Rightarrow> Inr (True, acc'))))"

text \<open>\<open>for _, n := range frontier { ... }\<close>\<close>

fun frontier_loop :: "('s, 'r) config \<Rightarrow> AdjacencyList \<Rightarrow> nat \<Rightarrow> NI list \<Rightarrow> NI list \<times> ('s, 'r) bfs_state
    \<Rightarrow> error + bool \<times> NI list \<times> ('s, 'r) bfs_state" where
  "frontier_loop cf g level [] acc = Inr (True, acc)"
| "frontier_loop cf g level (n # ns) acc =
     (case bfs_node cf g level n acc of
        Inl e \<Rightarrow> Inl e
      | Inr (ok, acc') \<Rightarrow> if ok then frontier_loop cf g level ns acc' else Inr (False, acc'))"

text \<open>\<open>for _, i := range cf.rand.Perm(len(frontier)) { n := frontier[i]; ... }\<close>\<close>

fun frontier_loop_rand :: "('s, 'r) config \<Rightarrow> AdjacencyList \<Rightarrow> nat \<Rightarrow> NI list \<Rightarrow> nat list
    \<Rightarrow> NI list \<times> ('s, 'r) bfs_state \<Rightarrow> error + bool \<times> NI list \<times> ('s, 'r) bfs_state" where
  "frontier_loop_rand cf g level frontier [] acc = Inr (True, acc)"
| "frontier_loop_rand cf g level frontier (i # is) acc =
     (if length frontier \<le> i then Inl IndexOutOfRange
      else (case bfs_node cf g level (frontier ! i) acc of
              Inl e \<Rightarrow> Inl e
            | Inr (ok, acc') \<Rightarrow>
                if ok then frontier_loop_rand cf g level frontier is acc' else Inr (False, acc')))"

text \<open>One pass of the outer loop over the frontier, in stored or in random order.\<close>

definition frontier_pass :: "('s, 'r) config \<Rightarrow> AdjacencyList \<Rightarrow> nat \<Rightarrow> NI list \<Rightarrow> ('s, 'r) bfs_state
    \<Rightarrow> error + bool \<times> NI list \<times> ('s, 'r) bfs_state" where
  "frontier_pass cf g level frontier st =
     (case rand cf of
        None \<Rightarrow> frontier_loop cf g level frontier ([], st)
      | Some perm \<Rightarrow>
          (let r = perm (rnd (bworld st)) (length frontier)
           in frontier_loop_rand cf g level frontier (fst r)
                ([], st\<lparr>bworld := (bworld st)\<lparr>rnd := snd r\<rparr>\<rparr>)))"

definition zeros :: "PathEnd list \<Rightarrow> nat" where
  "zeros ps = length (filter (\<lambda>p. Len p = 0) ps)"

text \<open>
  The outer loop \<open>for { f.MaxLen = level; level++; ...; if len(next) == 0 { break };
  frontier = next }\<close>. It ends because every pass that leaves a next frontier has
  given a nonzero \<open>Len\<close> to an entry that had \<open>Len\<close> zero; the lemmas below count
  those entries.
\<close>


lemma zeros_update:
  "i < length ps \<Longrightarrow> Len (ps ! i) = 0 \<Longrightarrow> Len p \<noteq> 0 \<Longrightarrow> Suc (zeros (ps[i := p])) = zeros ps"
proof (induction ps arbitrary: i)
  case Nil then show ?case by simp
next
  case (Cons a ps)
  then show ?case by (cases i) (auto simp: zeros_def)
qed

lemma scan_arcs_zeros:
  "0 < level \<Longrightarrow> scan_arcs n level nbs (next, st) = Inr (next', st')
     \<Longrightarrow> zeros (rp st') + length next' = zeros (rp st) + length next"
proof (induction nbs arbitrary: "next" st)
  case Nil then show ?case by simp
next
  case (Cons nb nbs)
  show ?case
  proof (cases "nb < 0 \<or> int (length (rp st)) \<le> nb")
    case True with Cons.prems show ?thesis by simp
  next
    case False
    note inb = this
    show ?thesis
    proof (cases "Len (rp st ! nat nb) = 0")
      case True
      let ?st = "st\<lparr>rp := (rp st)[nat nb := \<lparr>From = n, Len = int level\<rparr>], wlog := wlog st @ [nb]\<rparr>"
      from Cons.prems inb True have "scan_arcs n level nbs (next @ [nb], ?st) = Inr (next', st')" by simp
      from Cons.IH[OF Cons.prems(1) this]
      have "zeros (rp st') + length next' = zeros (rp ?st) + length (next @ [nb])" .
      moreover have "nat nb < length (rp st)" using inb by linarith
      then have "Suc (zeros (rp ?st)) = zeros (rp st)"
        using zeros_update[of "nat nb" "rp st" "\<lparr>From = n, Len = int level\<rparr>"] True Cons.prems(1) by simp
      ultimately show ?thesis by simp
    next
      case False
      with Cons.prems inb have "scan_arcs n level nbs (next, st) = Inr (next', st')" by simp
      from Cons.IH[OF Cons.prems(1) this] show ?thesis .
    qed
  qed
qed

lemma bfs_node_zeros:
  "0 < level \<Longrightarrow> bfs_node cf g level n (next, st) = Inr (ok, next', st')
     \<Longrightarrow> zeros (rp st') + length next' = zeros (rp st) + length next"
  unfolding bfs_node_def
  by (auto split: prod.splits if_splits sum.splits dest!: scan_arcs_zeros)

lemma frontier_loop_zeros:
  "0 < level \<Longrightarrow> frontier_loop cf g level ns (next, st) = Inr (ok, next', st')
     \<Longrightarrow> zeros (rp st') + length next' = zeros (rp st) + length next"
proof (induction ns arbitrary: "next" st)
  case Nil then show ?case by simp
next
  case (Cons n ns)
  then show ?case
    by (fastforce split: sum.splits if_splits dest: bfs_node_zeros)
qed

lemma frontier_loop_rand_zeros:
  "0 < level \<Longrightarrow> frontier_loop_rand cf g level fr is (next, st) = Inr (ok, next', st')
     \<Longrightarrow> zeros (rp st') + length next' = zeros (rp st) + length next"
proof (induction "is" arbitrary: "next" st)
  case Nil then show ?case by simp
next
  case (Cons n ns)
  then show ?case
    by (fastforce split: sum.splits if_splits dest: bfs_node_zeros)
qed

lemma frontier_pass_zeros:
  "0 < level \<Longrightarrow> frontier_pass cf g level fr st = Inr (ok, next', st')
     \<Longrightarrow> zeros (rp st') + length next' = zeros (rp st)"
proof (cases "rand cf")
  case None
  assume "0 < level" "frontier_pass cf g level fr st = Inr (ok, next', st')"
  with None frontier_loop_zeros[of level cf g fr "[]" st ok next' st'] show ?thesis
    by (simp add: frontier_pass_def)
next
  case (Some perm)
  assume "0 < level" "frontier_pass cf g level fr st = Inr (ok, next', st')"
  with Some frontier_loop_rand_zeros[of level cf g fr _ "[]" _ ok next' st'] show ?thesis
    by (simp add: frontier_pass_def Let_def)
qed

function bfs_loop :: "('s, 'r) config \<Rightarrow> AdjacencyList \<Rightarrow> NI list \<Rightarrow> nat \<Rightarrow> ('s, 'r) bfs_state
    \<Rightarrow> error + ('s, 'r) bfs_state" where
  "bfs_loop cf g frontier level st =
     (case frontier_pass cf g (Suc level) frontier
             (st\<lparr>maxLen := int level, fronts := fronts st @ [frontier]\<rparr>) of
        Inl e \<Rightarrow> Inl e
      | Inr (ok, next, st') \<Rightarrow>
          if \<not> ok then Inr st'
          else if next = [] then Inr st'
          else bfs_loop cf g next (Suc level) st')"
  by pat_completeness auto
termination
proof (relation "measure (\<lambda>(cf, g, frontier, level, st). zeros (rp st))")
  show "wf (measure (\<lambda>(cf, g, frontier, level, st). zeros (rp st)))" by simp
next
  fix cf :: "('s, 'r) config" and g frontier level and st :: "('s, 'r) bfs_state"
    and x2 x1 x2a x1a x2b
  assume a: "frontier_pass cf g (Suc level) frontier
               (st\<lparr>maxLen := int level, fronts := fronts st @ [frontier]\<rparr>) = Inr x2"
    "(x1, x2a) = x2" "(x1a, x2b) = x2a" "\<not> \<not> x1" "x1a \<noteq> []"
  then have "frontier_pass cf g (Suc level) frontier
               (st\<lparr>maxLen := int level, fronts := fronts st @ [frontier]\<rparr>) = Inr (x1, x1a, x2b)"
    by simp
  from frontier_pass_zeros[OF _ this] have "zeros (rp x2b) + length x1a = zeros (rp st)" by simp
  with a(5) have "zeros (rp x2b) < zeros (rp st)" by (cases x1a) auto
  then show "((cf, g, x1a, Suc level, x2b), cf, g, frontier, level, st)
       \<in> measure (\<lambda>(cf, g, frontier, level, st). zeros (rp st))" by simp
qed

definition BreadthFirst_cf :: "AdjacencyList \<Rightarrow> ('s, 'r) config \<Rightarrow> ('s, 'r) world
    \<Rightarrow> error + FromList \<times> ('s, 'r) bfs_state" where
  "BreadthFirst_cf g cf w =
     (let f = (case fromList cf of
                 None \<Rightarrow> NewFromList (length g)
               | Some f \<Rightarrow> (case Paths f of None \<Rightarrow> NewFromList (length g) | Some ps \<Rightarrow> f));
          rp0 = (case Paths f of None \<Rightarrow> [] | Some ps \<Rightarrow> ps)
      in if start cf < 0 \<or> int (length rp0) \<le> start cf then Inl IndexOutOfRange
         else (case bfs_loop cf g [start cf] 1
                      \<lparr>rp = rp0[nat (start cf) := \<lparr>From = - 1, Len = 1\<rparr>], maxLen = MaxLen f,
                       bworld = w, wlog = [start cf], fronts = []\<rparr> of
                 Inl e \<Rightarrow> Inl e
               | Inr st \<Rightarrow> Inr (f\<lparr>Paths := Some (rp st), MaxLen := maxLen st\<rparr>, st)))"

definition BreadthFirst :: "AdjacencyList \<Rightarrow> NI \<Rightarrow> ('s, 'r) TraverseOption list \<Rightarrow> ('s, 'r) world
    \<Rightarrow> error + FromList \<times> ('s, 'r) bfs_state" where
  "BreadthFirst g s opt w = BreadthFirst_cf g (configure s opt) w"

section \<open>DepthFirst\<close>

text \<open>
  The state of a depth-first traversal: the visited bitset \<open>b\<close>, the bitset
  \<open>cf.pathBits\<close> points to (\<open>None\<close> when the pointer is nil), and the world. The two
  bitsets are distinct objects.
\<close>

record ('s, 'r) dfs_state =
  vis :: Bits
  pbits :: "Bits option"
  dworld :: "('s, 'r) world"

text \<open>The two arc callbacks on arc number \<open>x\<close> of node \<open>n\<close>: the plain visitor first,
  then the conditional one, whose answer is returned.\<close>

definition visit_arc :: "('s, 'r) config \<Rightarrow> NI \<Rightarrow> int \<Rightarrow> ('s, 'r) world \<Rightarrow> bool \<times> ('s, 'r) world" where
  "visit_arc cf n x w =
     (let w1 = (case arcVisitor cf of
                  None \<Rightarrow> w
                | Some v \<Rightarrow> w\<lparr>ust := v (ust w) n x, trace := trace w @ [ArcVisit n x]\<rparr>)
      in case okArcVisitor cf of
           None \<Rightarrow> (True, w1)
         | Some v \<Rightarrow> (let r = v (ust w1) n x
                      in (fst r, w1\<lparr>ust := snd r, trace := trace w1 @ [OkArcVisit n x (fst r)]\<rparr>)))"

text \<open>\<open>cf.pathBits.SetBit(int(n), v)\<close> under \<open>if cf.pathBits != nil\<close>\<close>

definition set_path_bit :: "Bits option \<Rightarrow> NI \<Rightarrow> bool \<Rightarrow> error + Bits option" where
  "set_path_bit pb n v =
     (case pb of
        None \<Rightarrow> Inr None
      | Some bs \<Rightarrow> (case SetBit bs n v of Inl e \<Rightarrow> Inl e | Inr bs' \<Rightarrow> Inr (Some bs')))"

text \<open>
  The recursive closure \<open>df\<close> and its loop over the arcs of a node. The recursion depth
  is bounded by a fuel argument: \<open>None\<close> means the bound was reached. The loop runs over
  arc numbers \<open>xs\<close> of the arc list \<open>to\<close>: \<open>rand.Perm(len(to))\<close> in the random branch
  and \<open>0, ..., len(to) - 1\<close> in the other, where \<open>for x, to := range g[n]\<close> reads
  \<open>g[n][x]\<close>. The boolean of a result is the return value of \<open>df\<close>.
\<close>

fun df :: "('s, 'r) config \<Rightarrow> AdjacencyList \<Rightarrow> nat \<Rightarrow> NI \<Rightarrow> ('s, 'r) dfs_state
    \<Rightarrow> (error + bool \<times> ('s, 'r) dfs_state) option"
  and df_arcs :: "('s, 'r) config \<Rightarrow> AdjacencyList \<Rightarrow> nat \<Rightarrow> NI \<Rightarrow> NI list \<Rightarrow> nat list
    \<Rightarrow> ('s, 'r) dfs_state \<Rightarrow> (error + bool \<times> ('s, 'r) dfs_state) option" where
  "df cf g 0 n st = None"
| "df cf g (Suc k) n st =
     (case SetBit (vis st) n True of
        Inl e \<Rightarrow> Some (Inl e)
      | Inr b1 \<Rightarrow>
          (case set_path_bit (pbits st) n True of
             Inl e \<Rightarrow> Some (Inl e)
           | Inr pb1 \<Rightarrow>
               (case visit_node cf n (dworld st) of (ok, w) \<Rightarrow>
                  if \<not> ok then Some (Inr (False, \<lparr>vis = b1, pbits = pb1, dworld = w\<rparr>))
                  else if n < 0 \<or> int (length g) \<le> n then Some (Inl IndexOutOfRange)
                  else
                    (case (case rand cf of
                             None \<Rightarrow> df_arcs cf g k n (g ! nat n) [0..<length (g ! nat n)]
                                       \<lparr>vis = b1, pbits = pb1, dworld = w\<rparr>
                           | Some perm \<Rightarrow>
                               df_arcs cf g k n (g ! nat n) (fst (perm (rnd w) (length (g ! nat n))))
                                 \<lparr>vis = b1, pbits = pb1,
                                  dworld = w\<lparr>rnd := snd (perm (rnd w) (length (g ! nat n)))\<rparr>\<rparr>) of
                       None \<Rightarrow> None
                     | Some (Inl e) \<Rightarrow> Some (Inl e)
                     | Some (Inr (ok', st')) \<Rightarrow>
                         if \<not> ok' then Some (Inr (False, st'))
                         else (case set_path_bit (pbits st') n False of
                                 Inl e \<Rightarrow> Some (Inl e)
                               | Inr pb' \<Rightarrow> Some (Inr (True, st'\<lparr>pbits := pb'\<rparr>)))))))"
| "df_arcs cf g k n to [] st = Some (Inr (True, st))"
| "df_arcs cf g k n to (x # xs) st =
     (case visit_arc cf n (int x) (dworld st) of (ok, w) \<Rightarrow>
        if \<not> ok then Some (Inr (False, st\<lparr>dworld := w\<rparr>))
        else if length to \<le> x then Some (Inl IndexOutOfRange)
        else (case Bit (vis st) (to ! x) of
                Inl e \<Rightarrow> Some (Inl e)
              | Inr seen \<Rightarrow>
                  if seen then df_arcs cf g k n to xs (st\<lparr>dworld := w\<rparr>)
                  else (case df cf g k (to ! x) (st\<lparr>dworld := w\<rparr>) of
                          None \<Rightarrow> None
                        | Some (Inl e) \<Rightarrow> Some (Inl e)
                        | Some (Inr (ok', st')) \<Rightarrow>
                            if \<not> ok' then Some (Inr (False, st'))
                            else df_arcs cf g k n to xs st')))"

text \<open>
  \<open>DepthFirst\<close>: with a visited bitset of the caller whose bit of the start node is set it
  returns at once; otherwise it clears the path bitset, if there is one, and calls \<open>df\<close>.
  The result is the final state of the bitsets and the world.
\<close>

definition df_start :: "AdjacencyList \<Rightarrow> ('s, 'r) config \<Rightarrow> nat \<Rightarrow> Bits \<Rightarrow> ('s, 'r) world
    \<Rightarrow> (error + ('s, 'r) dfs_state) option" where
  "df_start g cf fuel bs w =
     (case df cf g fuel (start cf)
             \<lparr>vis = bs, pbits = map_option ClearAll (pathBits cf), dworld = w\<rparr> of
        None \<Rightarrow> None
      | Some (Inl e) \<Rightarrow> Some (Inl e)
      | Some (Inr (ok, st)) \<Rightarrow> Some (Inr st))"

definition DepthFirst_cf :: "AdjacencyList \<Rightarrow> ('s, 'r) config \<Rightarrow> nat \<Rightarrow> ('s, 'r) world
    \<Rightarrow> (error + ('s, 'r) dfs_state) option" where
  "DepthFirst_cf g cf fuel w =
     (case visBits cf of
        None \<Rightarrow> df_start g cf fuel (New (length g)) w
      | Some bs \<Rightarrow>
          (case Bit bs (start cf) of
             Inl e \<Rightarrow> Some (Inl e)
           | Inr seen \<Rightarrow>
               if seen then Some (Inr \<lparr>vis = bs, pbits = pathBits cf, dworld = w\<rparr>)
               else df_start g cf fuel bs w))"

definition DepthFirst :: "AdjacencyList \<Rightarrow> NI \<Rightarrow> ('s, 'r) TraverseOption list \<Rightarrow> nat
    \<Rightarrow> ('s, 'r) world \<Rightarrow> (error + ('s, 'r) dfs_state) option" where
  "DepthFirst g s options fuel w = DepthFirst_cf g (configure s options) fuel w"

section \<open>Undirected graphs\<close>

text \<open>
  \<open>IsUndirected\<close> of \<open>AdjacencyList\<close>. The slice \<open>unpaired\<close> holds, for each node, the
  arcs from it that have not met a reciprocal yet. \<open>first_index\<close> is the search
  \<open>for i, u := range ut { if u == NI(fr) ... }\<close>; on success the found element is
  overwritten with the last one and the slice is cut by one.
\<close>

fun first_index :: "NI \<Rightarrow> NI list \<Rightarrow> nat option" where
  "first_index x [] = None"
| "first_index x (u # us) = (if u = x then Some 0 else map_option Suc (first_index x us))"

definition pair_arc :: "nat \<Rightarrow> NI \<Rightarrow> AdjacencyList \<Rightarrow> error + AdjacencyList" where
  "pair_arc fr to unpaired =
     (if to = int fr then Inr unpaired
      else if to < 0 \<or> int (length unpaired) \<le> to then Inl IndexOutOfRange
      else (case first_index (int fr) (unpaired ! nat to) of
              Some i \<Rightarrow>
                Inr (unpaired[nat to := butlast ((unpaired ! nat to)[i := last (unpaired ! nat to)])])
            | None \<Rightarrow>
                if length unpaired \<le> fr then Inl IndexOutOfRange
                else Inr (unpaired[fr := unpaired ! fr @ [to]])))"

text \<open>\<open>for _, to := range to { ... }\<close>, the arcs of one node \<open>fr\<close>\<close>

fun pair_arcs :: "nat \<Rightarrow> NI list \<Rightarrow> AdjacencyList \<Rightarrow> error + AdjacencyList" where
  "pair_arcs fr [] unpaired = Inr unpaired"
| "pair_arcs fr (to # tos) unpaired =
     (case pair_arc fr to unpaired of Inl e \<Rightarrow> Inl e | Inr u \<Rightarrow> pair_arcs fr tos u)"

text \<open>\<open>for fr, to := range g { ... }\<close>, over the arc lists from node \<open>fr\<close> on\<close>

fun pair_nodes :: "NI list list \<Rightarrow> nat \<Rightarrow> AdjacencyList \<Rightarrow> error + AdjacencyList" where
  "pair_nodes [] fr unpaired = Inr unpaired"
| "pair_nodes (to # rest) fr unpaired =
     (case pair_arcs fr to unpaired of Inl e \<Rightarrow> Inl e | Inr u \<Rightarrow> pair_nodes rest (Suc fr) u)"

text \<open>\<open>for fr, to := range unpaired { if len(to) > 0 { return false, NI(fr), to[0] } }; return true, -1, -1\<close>\<close>

fun first_unpaired :: "NI list list \<Rightarrow> nat \<Rightarrow> bool \<times> NI \<times> NI" where
  "first_unpaired [] fr = (True, - 1, - 1)"
| "first_unpaired (to # rest) fr =
     (case to of [] \<Rightarrow> first_unpaired rest (Suc fr) | t # ts \<Rightarrow> (False, int fr, t))"

definition IsUndirected :: "AdjacencyList \<Rightarrow> error + bool \<times> NI \<times> NI" where
  "IsUndirected g =
     (case pair_nodes g 0 (replicate (length g) []) of
        Inl e \<Rightarrow> Inl e
      | Inr unpaired \<Rightarrow> Inr (first_unpaired unpaired 0))"

text \<open>
  Modelled from the spec: the method \<open>Undirected\<close> of \<open>FromList\<close> is in a file that is not
  part of the sources at hand. The spec: for every non-root node (parent other than -1)
  both the arc from the parent to the node and its reciprocal are present; a node that is
  its own parent yields one loop arc. The arcs are appended to the arc lists in the order
  of the nodes, which gives the lists of \<open>ExampleFromList_Undirected\<close>. A parent outside
  the slice is an index out of range.
\<close>

fun Undirected_loop :: "PathEnd list \<Rightarrow> nat \<Rightarrow> AdjacencyList \<Rightarrow> error + AdjacencyList" where
  "Undirected_loop [] n g = Inr g"
| "Undirected_loop (p # ps) n g =
     (if From p = - 1 then Undirected_loop ps (Suc n) g
      else if From p < 0 \<or> int (length g) \<le> From p \<or> length g \<le> n then Inl IndexOutOfRange
      else Undirected_loop ps (Suc n)
             (let g1 = (if From p \<noteq> int n then g[n := g ! n @ [From p]] else g)
              in g1[nat (From p) := g1 ! nat (From p) @ [int n]]))"

definition paths_of :: "FromList \<Rightarrow> PathEnd list" where
  "paths_of f = (case Paths f of None \<Rightarrow> [] | Some ps \<Rightarrow> ps)"

definition Undirected :: "FromList \<Rightarrow> error + AdjacencyList" where
  "Undirected f = Undirected_loop (paths_of f) 0 (replicate (length (paths_of f)) [])"

text \<open>
  Modelled from the spec: the bounds check of \<open>FromList\<close> (\<open>BoundsOk\<close>, exercised by
  \<open>ExampleFromList_BoundsOk\<close>) is in the same missing file. Every parent is -1 or a node
  of the slice; the offending node is returned on failure.
\<close>

fun FromList_BoundsOk_loop :: "PathEnd list \<Rightarrow> nat \<Rightarrow> nat \<Rightarrow> bool \<times> NI" where
  "FromList_BoundsOk_loop [] n len = (True, - 1)"
| "FromList_BoundsOk_loop (p # ps) n len =
     (if From p < - 1 \<or> int len \<le> From p then (False, int n) else FromList_BoundsOk_loop ps (Suc n) len)"

definition FromList_BoundsOk :: "FromList \<Rightarrow> bool \<times> NI" where
  "FromList_BoundsOk f = FromList_BoundsOk_loop (paths_of f) 0 (length (paths_of f))"

section \<open>What a breadth-first traversal leaves alone\<close>

text \<open>
  \<open>paths_frame ps ps' new\<close>: going from \<open>ps\<close> to \<open>ps'\<close> the slice keeps its length,
  every entry with a nonzero \<open>Len\<close> is kept as it is, and the nodes \<open>new\<close> had \<open>Len\<close>
  zero before.
\<close>



definition paths_frame :: "PathEnd list \<Rightarrow> PathEnd list \<Rightarrow> NI list \<Rightarrow> bool" where
  "paths_frame ps ps' new \<longleftrightarrow>
     length ps' = length ps \<and>
     (\<forall>v\<in>set new. 0 \<le> v \<and> nat v < length ps \<and> Len (ps ! nat v) = 0) \<and>
     (\<forall>i<length ps. Len (ps ! i) \<noteq> 0 \<longrightarrow> ps' ! i = ps ! i)"

definition bfs_frame :: "('s, 'r) bfs_state \<Rightarrow> ('s, 'r) bfs_state \<Rightarrow> NI list \<Rightarrow> bool" where
  "bfs_frame st st' new \<longleftrightarrow>
     paths_frame (rp st) (rp st') new \<and> wlog st' = wlog st @ new \<and>
     maxLen st' = maxLen st \<and> fronts st' = fronts st"

lemma paths_frame_refl: "paths_frame ps ps []"
  by (simp add: paths_frame_def)

lemma paths_frame_trans:
  assumes "paths_frame ps ps' new" "paths_frame ps' ps'' new'"
  shows "paths_frame ps ps'' (new @ new')"
proof -
  have z: "Len (ps ! nat v) = 0" if "v \<in> set new'" for v
  proof (rule ccontr)
    assume nz: "Len (ps ! nat v) \<noteq> 0"
    from that assms(2) have v: "nat v < length ps'" "Len (ps' ! nat v) = 0"
      by (auto simp: paths_frame_def)
    with assms(1) nz have "ps' ! nat v = ps ! nat v" by (simp add: paths_frame_def)
    with v nz show False by simp
  qed
  have a: "\<forall>v\<in>set (new @ new'). 0 \<le> v \<and> nat v < length ps \<and> Len (ps ! nat v) = 0"
    using assms z by (auto simp: paths_frame_def)
  have b: "\<forall>i<length ps. Len (ps ! i) \<noteq> 0 \<longrightarrow> ps'' ! i = ps ! i"
    using assms by (simp add: paths_frame_def)
  from a b assms show ?thesis
    by (simp add: paths_frame_def)
qed

lemma bfs_frame_refl: "bfs_frame st st []"
  by (simp add: bfs_frame_def paths_frame_refl)

lemma bfs_frame_trans:
  "bfs_frame st st' new \<Longrightarrow> bfs_frame st' st'' new' \<Longrightarrow> bfs_frame st st'' (new @ new')"
  by (auto simp: bfs_frame_def intro: paths_frame_trans)

lemma bfs_frame_world: "bfs_frame (st\<lparr>bworld := w\<rparr>) st' new \<Longrightarrow> bfs_frame st st' new"
  by (simp add: bfs_frame_def)

lemma scan_arcs_frame:
  "scan_arcs n level nbs (next, st) = Inr (next', st')
     \<Longrightarrow> \<exists>new. next' = next @ new \<and> bfs_frame st st' new"
proof (induction nbs arbitrary: "next" st)
  case Nil
  then show ?case by (simp add: bfs_frame_refl)
next
  case (Cons nb nbs)
  show ?case
  proof (cases "nb < 0 \<or> int (length (rp st)) \<le> nb")
    case True with Cons.prems show ?thesis by simp
  next
    case inb: False
    show ?thesis
    proof (cases "Len (rp st ! nat nb) = 0")
      case True
      let ?st = "st\<lparr>rp := (rp st)[nat nb := \<lparr>From = n, Len = int level\<rparr>], wlog := wlog st @ [nb]\<rparr>"
      from Cons.prems inb True have "scan_arcs n level nbs (next @ [nb], ?st) = Inr (next', st')" by simp
      from Cons.IH[OF this] obtain new where
        new: "next' = (next @ [nb]) @ new" "bfs_frame ?st st' new" by blast
      have "nat nb < length (rp st)" using inb by linarith
      with True inb have "bfs_frame st ?st [nb]"
        by (auto simp: bfs_frame_def paths_frame_def nth_list_update)
      from bfs_frame_trans[OF this new(2)] new(1) show ?thesis by auto
    next
      case False
      with Cons.prems inb have "scan_arcs n level nbs (next, st) = Inr (next', st')" by simp
      from Cons.IH[OF this] show ?thesis .
    qed
  qed
qed

lemma bfs_node_frame:
  assumes "bfs_node cf g level n (next, st) = Inr (ok, next', st')"
  shows "\<exists>new. next' = next @ new \<and> bfs_frame st st' new"
proof -
  obtain ok1 w where v: "visit_node cf n (bworld st) = (ok1, w)" by (cases "visit_node cf n (bworld st)")
  show ?thesis
  proof (cases ok1)
    case False
    with assms v have "next' = next" "st' = st\<lparr>bworld := w\<rparr>" by (auto simp: bfs_node_def)
    then show ?thesis by (simp add: bfs_frame_def paths_frame_refl)
  next
    case True
    with assms v have "scan_arcs n level (g ! nat n) (next, st\<lparr>bworld := w\<rparr>) = Inr (next', st')"
      by (auto simp: bfs_node_def split: if_splits sum.splits)
    from scan_arcs_frame[OF this] show ?thesis by (auto dest: bfs_frame_world)
  qed
qed

lemma frontier_loop_frame:
  "frontier_loop cf g level ns (next, st) = Inr (ok, next', st')
     \<Longrightarrow> \<exists>new. next' = next @ new \<and> bfs_frame st st' new"
proof (induction ns arbitrary: "next" st)
  case Nil then show ?case by (simp add: bfs_frame_refl)
next
  case (Cons n ns)
  from Cons.prems obtain ok1 next1 st1 where
    b: "bfs_node cf g level n (next, st) = Inr (ok1, next1, st1)"
    by (auto split: sum.splits)
  from bfs_node_frame[OF b] obtain new1 where n1: "next1 = next @ new1" "bfs_frame st st1 new1" by blast
  show ?case
  proof (cases ok1)
    case False
    with Cons.prems b n1 show ?thesis by auto
  next
    case True
    with Cons.prems b have "frontier_loop cf g level ns (next1, st1) = Inr (ok, next', st')" by simp
    from Cons.IH[OF this] obtain new2 where "next' = next1 @ new2" "bfs_frame st1 st' new2" by blast
    with n1 bfs_frame_trans[OF n1(2) this(2)] show ?thesis by auto
  qed
qed

lemma frontier_loop_rand_frame:
  "frontier_loop_rand cf g level fr is (next, st) = Inr (ok, next', st')
     \<Longrightarrow> \<exists>new. next' = next @ new \<and> bfs_frame st st' new"
proof (induction "is" arbitrary: "next" st)
  case Nil then show ?case by (simp add: bfs_frame_refl)
next
  case (Cons i "is")
  from Cons.prems obtain ok1 next1 st1 where
    b: "bfs_node cf g level (fr ! i) (next, st) = Inr (ok1, next1, st1)"
    by (auto split: sum.splits if_splits)
  from bfs_node_frame[OF b] obtain new1 where n1: "next1 = next @ new1" "bfs_frame st st1 new1" by blast
  show ?case
  proof (cases ok1)
    case False
    with Cons.prems b n1 show ?thesis by (auto split: if_splits)
  next
    case True
    with Cons.prems b have "frontier_loop_rand cf g level fr is (next1, st1) = Inr (ok, next', st')"
      by (simp split: if_splits)
    from Cons.IH[OF this] obtain new2 where "next' = next1 @ new2" "bfs_frame st1 st' new2" by blast
    with n1 bfs_frame_trans[OF n1(2) this(2)] show ?thesis by auto
  qed
qed

lemma frontier_pass_frame:
  assumes "frontier_pass cf g level fr st = Inr (ok, next', st')"
  shows "bfs_frame st st' next'"
proof (cases "rand cf")
  case None
  with assms have "frontier_loop cf g level fr ([], st) = Inr (ok, next', st')"
    by (simp add: frontier_pass_def)
  from frontier_loop_frame[OF this] show ?thesis by simp
next
  case (Some perm)
  let ?r = "perm (rnd (bworld st)) (length fr)"
  from Some assms have "frontier_loop_rand cf g level fr (fst ?r)
      ([], st\<lparr>bworld := (bworld st)\<lparr>rnd := snd ?r\<rparr>\<rparr>) = Inr (ok, next', st')"
    by (simp add: frontier_pass_def Let_def)
  from frontier_loop_rand_frame[OF this] show ?thesis by (auto dest: bfs_frame_world)
qed


declare bfs_loop.simps [simp del]

lemma bfs_loop_inv:
  "bfs_loop cf g frontier level st = Inr st' \<Longrightarrow>
     \<exists>new fs. paths_frame (rp st) (rp st') new \<and> wlog st' = wlog st @ new \<and>
        fronts st' = fronts st @ frontier # fs \<and> set (concat fs) \<subseteq> set new \<and> [] \<notin> set fs \<and>
        maxLen st' = int level + int (length fs)"
proof (induction cf g frontier level st arbitrary: st' rule: bfs_loop.induct)
  case (1 cf g frontier level st)
  let ?st0 = "st\<lparr>maxLen := int level, fronts := fronts st @ [frontier]\<rparr>"
  from "1.prems" obtain ok nxt st1 where
    p: "frontier_pass cf g (Suc level) frontier ?st0 = Inr (ok, nxt, st1)"
    by (subst (asm) bfs_loop.simps) (auto split: sum.splits)
  from frontier_pass_frame[OF p] have f: "bfs_frame ?st0 st1 nxt" .
  show ?case
  proof (cases "ok \<and> nxt \<noteq> []")
    case False
    with "1.prems" p have "st' = st1"
      by (subst (asm) bfs_loop.simps) (auto split: if_splits)
    with f have "paths_frame (rp st) (rp st') nxt \<and> wlog st' = wlog st @ nxt \<and>
        fronts st' = fronts st @ frontier # [] \<and> set (concat []) \<subseteq> set nxt \<and> [] \<notin> set [] \<and>
        maxLen st' = int level + int (length ([] :: NI list list))"
      by (simp add: bfs_frame_def)
    then show ?thesis by blast
  next
    case True
    with "1.prems" p have r: "bfs_loop cf g nxt (Suc level) st1 = Inr st'"
      by (subst (asm) bfs_loop.simps) simp
    from True have "\<not> \<not> ok" "nxt \<noteq> []" by simp_all
    from "1.IH"[OF p refl refl this r] obtain new fs where
      ih: "paths_frame (rp st1) (rp st') new" "wlog st' = wlog st1 @ new"
        "fronts st' = fronts st1 @ nxt # fs" "set (concat fs) \<subseteq> set new" "[] \<notin> set fs"
        "maxLen st' = int (Suc level) + int (length fs)" by blast
    from f have f': "paths_frame (rp st) (rp st1) nxt" "wlog st1 = wlog st @ nxt"
      "fronts st1 = fronts st @ [frontier]" by (simp_all add: bfs_frame_def)
    have "paths_frame (rp st) (rp st') (nxt @ new) \<and> wlog st' = wlog st @ (nxt @ new) \<and>
        fronts st' = fronts st @ frontier # (nxt # fs) \<and> set (concat (nxt # fs)) \<subseteq> set (nxt @ new) \<and>
        [] \<notin> set (nxt # fs) \<and> maxLen st' = int level + int (length (nxt # fs))"
      using ih f' True paths_frame_trans[OF f'(1) ih(1)] by auto
    then show ?thesis by blast
  qed
qed

section \<open>Properties of BreadthFirst and DepthFirst\<close>

lemma start_configure: "start (configure s (opt :: ('s, 'r) TraverseOption list)) = s"
proof -
  have "start (foldl (\<lambda>cf op. apply_option op cf) c opt) = start c" for c :: "('s, 'r) config"
  proof (induction opt arbitrary: c)
    case Nil show ?case by simp
  next
    case (Cons op opt)
    show ?case by (cases op) (simp_all add: Cons.IH)
  qed
  then show ?thesis by (simp add: configure_def new_config_def)
qed

text \<open>What a returning call has done, in terms of the slice it started from.\<close>

lemma BreadthFirst_cf_returns:
  assumes "BreadthFirst_cf g cf w = Inr (f', st')"
  obtains f ps new fs where
    "f = (case fromList cf of
            None \<Rightarrow> NewFromList (length g)
          | Some f \<Rightarrow> (case Paths f of None \<Rightarrow> NewFromList (length g) | Some ps \<Rightarrow> f))"
    "Paths f = Some ps" "0 \<le> start cf" "nat (start cf) < length ps"
    "f' = f\<lparr>Paths := Some (rp st'), MaxLen := maxLen st'\<rparr>"
    "paths_frame (ps[nat (start cf) := \<lparr>From = - 1, Len = 1\<rparr>]) (rp st') new"
    "wlog st' = start cf # new" "fronts st' = [start cf] # fs"
    "set (concat fs) \<subseteq> set new" "[] \<notin> set fs" "maxLen st' = 1 + int (length fs)"
proof -
  define f where "f = (case fromList cf of
            None \<Rightarrow> NewFromList (length g)
          | Some f \<Rightarrow> (case Paths f of None \<Rightarrow> NewFromList (length g) | Some ps \<Rightarrow> f))"
  have "Paths f \<noteq> None"
    by (auto simp: f_def NewFromList_def split: option.splits)
  then obtain ps where ps: "Paths f = Some ps" by blast
  let ?st0 = "\<lparr>rp = ps[nat (start cf) := \<lparr>From = - 1, Len = 1\<rparr>], maxLen = MaxLen f,
                bworld = w, wlog = [start cf], fronts = []\<rparr>"
  from assms have u: "(if start cf < 0 \<or> int (length ps) \<le> start cf then Inl IndexOutOfRange
         else (case bfs_loop cf g [start cf] 1 ?st0 of
                 Inl e \<Rightarrow> Inl e
               | Inr st \<Rightarrow> Inr (f\<lparr>Paths := Some (rp st), MaxLen := maxLen st\<rparr>, st))) = Inr (f', st')"
    by (simp add: BreadthFirst_cf_def f_def[symmetric] Let_def ps split: if_splits)
  then have rng: "0 \<le> start cf" "nat (start cf) < length ps"
    by (auto split: if_splits)
  with u have l: "bfs_loop cf g [start cf] 1 ?st0 = Inr st'"
    and f': "f' = f\<lparr>Paths := Some (rp st'), MaxLen := maxLen st'\<rparr>"
    by (auto split: if_splits sum.splits)
  from bfs_loop_inv[OF l] obtain new fs where
    "paths_frame (ps[nat (start cf) := \<lparr>From = - 1, Len = 1\<rparr>]) (rp st') new"
    "wlog st' = start cf # new" "fronts st' = [start cf] # fs"
    "set (concat fs) \<subseteq> set new" "[] \<notin> set fs" "maxLen st' = 1 + int (length fs)"
    by auto
  with that[OF f_def ps rng f'] show thesis by blast
qed

text \<open>
  Claim C10. Every call of \<open>BreadthFirst\<close> that returns, also one given a FromList that
  holds the results of an earlier traversal, leaves the entry of the start node as
  \<open>PathEnd{From: -1, Len: 1}\<close>, whatever was recorded there, and leaves \<open>MaxLen\<close> equal to
  the number of frontiers this call took up (the first is \<open>[s]\<close>, none is empty), whatever
  \<open>MaxLen\<close> was before. The witness is a call that lowers \<open>MaxLen\<close> from 3 to 1 and
  replaces the recorded path \<open>(0, 2)\<close> of its start node.
\<close>

theorem BreadthFirst_start_entry_and_MaxLen:
  assumes "BreadthFirst g s opt w = Inr (f', st')"
  shows "\<exists>ps'. Paths f' = Some ps' \<and> 0 \<le> s \<and> nat s < length ps' \<and>
           ps' ! nat s = \<lparr>From = - 1, Len = 1\<rparr> \<and>
           fronts st' \<noteq> [] \<and> hd (fronts st') = [s] \<and> [] \<notin> set (fronts st') \<and>
           MaxLen f' = int (length (fronts st'))"
proof -
  from assms have "BreadthFirst_cf g (configure s opt) w = Inr (f', st')"
    by (simp add: BreadthFirst_def)
  then obtain f ps new fs where r:
    "Paths f = Some ps" "0 \<le> s" "nat s < length ps"
    "f' = f\<lparr>Paths := Some (rp st'), MaxLen := maxLen st'\<rparr>"
    "paths_frame (ps[nat s := \<lparr>From = - 1, Len = 1\<rparr>]) (rp st') new"
    "fronts st' = [s] # fs" "[] \<notin> set fs" "maxLen st' = 1 + int (length fs)"
    by (rule BreadthFirst_cf_returns) (simp add: start_configure)
  from r(3,5) have "rp st' ! nat s = \<lparr>From = - 1, Len = 1\<rparr>" "length (rp st') = length ps"
    by (simp_all add: paths_frame_def)
  with r show ?thesis by simp
qed

theorem BreadthFirst_start_entry_and_MaxLen_witness:
  "BreadthFirst [[1],[2],[]] 1
     ([FromOpt \<lparr>Paths = Some [\<lparr>From = - 1, Len = 1\<rparr>, \<lparr>From = 0, Len = 2\<rparr>, \<lparr>From = 1, Len = 3\<rparr>],
                Leaves = [], MaxLen = 3\<rparr>] :: (unit, unit) TraverseOption list)
     \<lparr>ust = (), rnd = (), trace = []\<rparr>
   = Inr (\<lparr>Paths = Some [\<lparr>From = - 1, Len = 1\<rparr>, \<lparr>From = - 1, Len = 1\<rparr>, \<lparr>From = 1, Len = 3\<rparr>],
            Leaves = [], MaxLen = 1\<rparr>,
          \<lparr>rp = [\<lparr>From = - 1, Len = 1\<rparr>, \<lparr>From = - 1, Len = 1\<rparr>, \<lparr>From = 1, Len = 3\<rparr>],
            maxLen = 1, bworld = \<lparr>ust = (), rnd = (), trace = []\<rparr>, wlog = [1], fronts = [[1]]\<rparr>)
   \<and> (\<exists>ps'. Paths \<lparr>Paths = Some [\<lparr>From = - 1, Len = 1\<rparr>, \<lparr>From = - 1, Len = 1\<rparr>, \<lparr>From = 1, Len = 3\<rparr>],
            Leaves = [], MaxLen = 1\<rparr> = Some ps' \<and> (0::int) \<le> 1 \<and> nat 1 < length ps' \<and>
           ps' ! nat 1 = \<lparr>From = - 1, Len = 1\<rparr> \<and>
           MaxLen \<lparr>Paths = Some [\<lparr>From = - 1, Len = 1\<rparr>, \<lparr>From = - 1, Len = 1\<rparr>, \<lparr>From = 1, Len = 3\<rparr>],
            Leaves = [], MaxLen = 1\<rparr> = int (length [[1::int]]))"
proof -
  have h: "BreadthFirst [[1],[2],[]] 1
     ([FromOpt \<lparr>Paths = Some [\<lparr>From = - 1, Len = 1\<rparr>, \<lparr>From = 0, Len = 2\<rparr>, \<lparr>From = 1, Len = 3\<rparr>],
                Leaves = [], MaxLen = 3\<rparr>] :: (unit, unit) TraverseOption list)
     \<lparr>ust = (), rnd = (), trace = []\<rparr>
   = Inr (\<lparr>Paths = Some [\<lparr>From = - 1, Len = 1\<rparr>, \<lparr>From = - 1, Len = 1\<rparr>, \<lparr>From = 1, Len = 3\<rparr>],
            Leaves = [], MaxLen = 1\<rparr>,
          \<lparr>rp = [\<lparr>From = - 1, Len = 1\<rparr>, \<lparr>From = - 1, Len = 1\<rparr>, \<lparr>From = 1, Len = 3\<rparr>],
            maxLen = 1, bworld = \<lparr>ust = (), rnd = (), trace = []\<rparr>, wlog = [1], fronts = [[1]]\<rparr>)"
    by code_simp
  from BreadthFirst_start_entry_and_MaxLen[OF h] h show ?thesis by simp
qed

text \<open>
  Claim C3. When the caller supplies a FromList whose \<open>Paths\<close> is not nil, a returning
  \<open>BreadthFirst\<close> keeps that slice: its length is unchanged, and every node other than
  the start node whose entry had a nonzero \<open>Len\<close> keeps its entry, is in no frontier the
  call took up and is never appended to a next frontier (every append is logged in
  \<open>wlog\<close>).
\<close>

theorem BreadthFirst_keeps_recorded_paths:
  assumes "BreadthFirst g s opt w = Inr (f', st')"
    and "fromList (configure s opt) = Some f" and "Paths f = Some ps"
    and "v \<noteq> s" and "0 \<le> v" and "nat v < length ps" and "Len (ps ! nat v) \<noteq> 0"
  shows "\<exists>ps'. Paths f' = Some ps' \<and> length ps' = length ps \<and> ps' ! nat v = ps ! nat v \<and>
           Leaves f' = Leaves f \<and> v \<notin> set (concat (fronts st')) \<and> v \<notin> set (wlog st')"
proof -
  from assms(1) have "BreadthFirst_cf g (configure s opt) w = Inr (f', st')"
    by (simp add: BreadthFirst_def)
  then obtain f0 ps0 new fs where r:
    "f0 = (case fromList (configure s opt) of
            None \<Rightarrow> NewFromList (length g)
          | Some f \<Rightarrow> (case Paths f of None \<Rightarrow> NewFromList (length g) | Some ps \<Rightarrow> f))"
    "Paths f0 = Some ps0" "0 \<le> s" "nat s < length ps0"
    "f' = f0\<lparr>Paths := Some (rp st'), MaxLen := maxLen st'\<rparr>"
    "paths_frame (ps0[nat s := \<lparr>From = - 1, Len = 1\<rparr>]) (rp st') new"
    "wlog st' = s # new" "fronts st' = [s] # fs" "set (concat fs) \<subseteq> set new"
    by (rule BreadthFirst_cf_returns) (simp add: start_configure)
  from r(1) assms(2,3) have f0: "f0 = f" by simp
  with r(2) assms(3) have ps0: "ps0 = ps" by simp
  from assms(4,5) r(3) have ne: "nat v \<noteq> nat s" by simp
  with assms(7) have nz: "Len (ps[nat s := \<lparr>From = - 1, Len = 1\<rparr>] ! nat v) \<noteq> 0" by simp
  from r(6) nz assms(6) ne have keep: "rp st' ! nat v = ps ! nat v" "length (rp st') = length ps"
    unfolding ps0 paths_frame_def by auto
  have "v \<notin> set new"
  proof
    assume "v \<in> set new"
    with r(6) have "Len (ps[nat s := \<lparr>From = - 1, Len = 1\<rparr>] ! nat v) = 0"
      unfolding ps0 paths_frame_def by blast
    with nz show False by simp
  qed
  with r(7,8,9) assms(4) have "v \<notin> set (concat (fronts st'))" "v \<notin> set (wlog st')" by auto
  with keep r(5) f0 show ?thesis by simp
qed


theorem BreadthFirst_keeps_recorded_paths_witness:
  "BreadthFirst [[1, 2], [2], []] 0
     ([FromOpt \<lparr>Paths = Some [\<lparr>From = 0, Len = 0\<rparr>, \<lparr>From = 0, Len = 0\<rparr>, \<lparr>From = - 1, Len = 1\<rparr>],
                Leaves = [], MaxLen = 1\<rparr>] :: (unit, unit) TraverseOption list)
     \<lparr>ust = (), rnd = (), trace = []\<rparr>
   = Inr (\<lparr>Paths = Some [\<lparr>From = - 1, Len = 1\<rparr>, \<lparr>From = 0, Len = 2\<rparr>, \<lparr>From = - 1, Len = 1\<rparr>],
            Leaves = [], MaxLen = 2\<rparr>,
          \<lparr>rp = [\<lparr>From = - 1, Len = 1\<rparr>, \<lparr>From = 0, Len = 2\<rparr>, \<lparr>From = - 1, Len = 1\<rparr>],
            maxLen = 2, bworld = \<lparr>ust = (), rnd = (), trace = []\<rparr>, wlog = [0, 1], fronts = [[0], [1]]\<rparr>)
   \<and> (\<exists>ps'. Some [\<lparr>From = - 1, Len = 1\<rparr>, \<lparr>From = 0, Len = 2\<rparr>, \<lparr>From = - 1, Len = 1\<rparr>] = Some ps' \<and>
          length ps' = 3 \<and> ps' ! 2 = \<lparr>From = - 1, Len = 1\<rparr> \<and> (2::int) \<notin> set (concat [[0], [1]]) \<and>
          (2::int) \<notin> set [0, 1])"
proof -
  let ?f = "\<lparr>Paths = Some [\<lparr>From = 0, Len = 0\<rparr>, \<lparr>From = 0, Len = 0\<rparr>, \<lparr>From = - 1, Len = 1\<rparr>],
                Leaves = [], MaxLen = 1\<rparr>"
  let ?opt = "[FromOpt ?f] :: (unit, unit) TraverseOption list"
  have h: "BreadthFirst [[1, 2], [2], []] 0 ?opt \<lparr>ust = (), rnd = (), trace = []\<rparr>
   = Inr (\<lparr>Paths = Some [\<lparr>From = - 1, Len = 1\<rparr>, \<lparr>From = 0, Len = 2\<rparr>, \<lparr>From = - 1, Len = 1\<rparr>],
            Leaves = [], MaxLen = 2\<rparr>,
          \<lparr>rp = [\<lparr>From = - 1, Len = 1\<rparr>, \<lparr>From = 0, Len = 2\<rparr>, \<lparr>From = - 1, Len = 1\<rparr>],
            maxLen = 2, bworld = \<lparr>ust = (), rnd = (), trace = []\<rparr>, wlog = [0, 1], fronts = [[0], [1]]\<rparr>)"
    by code_simp
  have c: "fromList (configure 0 ?opt) = Some ?f"
    by (simp add: configure_def new_config_def)
  from BreadthFirst_keeps_recorded_paths[OF h c, of _ 2] h show ?thesis by simp
qed

text \<open>
  Claim C4. With a visited bitset of the caller in which the bit of the start node is set,
  \<open>DepthFirst\<close> returns at once, for every bound on the recursion depth: the visited
  bitset, the path bitset and the world (caller state, generator and the log of callback
  invocations) are what they were, so no callback of any kind was invoked.
\<close>

theorem DepthFirst_visited_start_noop:
  assumes "visBits (configure s options) = Some bs" and "Bit bs s = Inr True"
  shows "DepthFirst g s options fuel w
           = Some (Inr \<lparr>vis = bs, pbits = pathBits (configure s options), dworld = w\<rparr>)"
  using assms by (simp add: DepthFirst_def DepthFirst_cf_def start_configure)

theorem DepthFirst_visited_start_noop_witness:
  "visBits (configure 0 ([Visited [True, False], NodeVisitor (\<lambda>c n. Suc c), PathBits [True, True]]
       :: (nat, unit) TraverseOption list)) = Some [True, False]
   \<and> Bit [True, False] 0 = Inr True
   \<and> DepthFirst [[1], [0]] 0
         ([Visited [True, False], NodeVisitor (\<lambda>c n. Suc c), PathBits [True, True]]
            :: (nat, unit) TraverseOption list) 0 \<lparr>ust = 0, rnd = (), trace = []\<rparr>
       = Some (Inr \<lparr>vis = [True, False], pbits = Some [True, True],
                      dworld = \<lparr>ust = 0, rnd = (), trace = []\<rparr>\<rparr>)"
proof -
  let ?opt = "[Visited [True, False], NodeVisitor (\<lambda>c n. Suc c), PathBits [True, True]]
       :: (nat, unit) TraverseOption list"
  have a: "visBits (configure 0 ?opt) = Some [True, False]"
    by (simp add: configure_def new_config_def)
  have b: "Bit [True, False] 0 = Inr True" by (simp add: Bit_def)
  have c: "pathBits (configure 0 ?opt) = Some [True, True]"
    by (simp add: configure_def new_config_def)
  from DepthFirst_visited_start_noop[OF a b, of "[[1], [0]]" 0 "\<lparr>ust = 0, rnd = (), trace = []\<rparr>"] a b c
  show ?thesis by simp
qed

text \<open>The fields of the configuration that \<open>BreadthFirst\<close> reads.\<close>

definition bfs_unsupported :: "('s, 'r) TraverseOption \<Rightarrow> bool" where
  "bfs_unsupported op = (case op of
       ArcVisitor v \<Rightarrow> True | OkArcVisitor v \<Rightarrow> True | Visited bs \<Rightarrow> True | PathBits bs \<Rightarrow> True
     | FromOpt f \<Rightarrow> False | NodeVisitor v \<Rightarrow> False | OkNodeVisitor v \<Rightarrow> False | Rand r \<Rightarrow> False)"

definition bfs_part :: "('s, 'r) config \<Rightarrow> ('s, 'r) config" where
  "bfs_part cf = cf\<lparr>arcVisitor := None, okArcVisitor := None, visBits := None, pathBits := None\<rparr>"

lemma visit_node_bfs_part: "visit_node (bfs_part cf) = visit_node cf"
  by (intro ext) (simp add: visit_node_def bfs_part_def)

lemma bfs_node_bfs_part: "bfs_node (bfs_part cf) = bfs_node cf"
  by (intro ext) (simp add: bfs_node_def visit_node_bfs_part)

lemma frontier_loop_bfs_part: "frontier_loop (bfs_part cf) g level ns acc = frontier_loop cf g level ns acc"
  by (induction ns arbitrary: acc) (simp_all add: bfs_node_bfs_part split: sum.splits)

lemma frontier_loop_rand_bfs_part:
  "frontier_loop_rand (bfs_part cf) g level fr is acc = frontier_loop_rand cf g level fr is acc"
  by (induction "is" arbitrary: acc) (simp_all add: bfs_node_bfs_part split: sum.splits)

lemma frontier_pass_bfs_part: "frontier_pass (bfs_part cf) = frontier_pass cf"
proof -
  have r: "rand (bfs_part cf) = rand cf" by (simp add: bfs_part_def)
  show ?thesis
    unfolding frontier_pass_def[abs_def] r frontier_loop_bfs_part frontier_loop_rand_bfs_part ..
qed

lemma bfs_loop_bfs_part: "bfs_loop (bfs_part cf) g frontier level st = bfs_loop cf g frontier level st"
proof (induction cf g frontier level st rule: bfs_loop.induct)
  case (1 cf g frontier level st)
  show ?case
    by (subst bfs_loop.simps, subst (2) bfs_loop.simps)
       (auto simp: frontier_pass_bfs_part "1.IH" split: sum.splits)
qed

lemma BreadthFirst_cf_bfs_part: "BreadthFirst_cf g (bfs_part cf) w = BreadthFirst_cf g cf w"
proof -
  have r: "start (bfs_part cf) = start cf" "fromList (bfs_part cf) = fromList cf"
    by (simp_all add: bfs_part_def)
  show ?thesis unfolding BreadthFirst_cf_def r bfs_loop_bfs_part ..
qed

lemma bfs_part_apply_unsupported:
  "bfs_unsupported op \<Longrightarrow> bfs_part (apply_option op cf) = bfs_part cf"
  by (cases op) (simp_all add: bfs_unsupported_def bfs_part_def)

lemma bfs_part_apply_cong:
  "bfs_part cf = bfs_part cf' \<Longrightarrow> bfs_part (apply_option op cf) = bfs_part (apply_option op cf')"
  by (cases cf; cases cf'; cases op) (simp_all add: bfs_part_def)

lemma bfs_part_foldl_filter:
  "bfs_part c = bfs_part c' \<Longrightarrow>
   bfs_part (foldl (\<lambda>cf op. apply_option op cf) c (filter (\<lambda>op. \<not> bfs_unsupported op) opt))
     = bfs_part (foldl (\<lambda>cf op. apply_option op cf) c' opt)"
proof (induction opt arbitrary: c c')
  case Nil then show ?case by simp
next
  case (Cons op opt)
  show ?case
  proof (cases "bfs_unsupported op")
    case True
    with Cons.prems have "bfs_part c = bfs_part (apply_option op c')"
      by (simp add: bfs_part_apply_unsupported)
    from Cons.IH[OF this] True show ?thesis by simp
  next
    case False
    from Cons.prems have "bfs_part (apply_option op c) = bfs_part (apply_option op c')"
      by (rule bfs_part_apply_cong)
    from Cons.IH[OF this] False show ?thesis by simp
  qed
qed

text \<open>
  Claim C9. Removing from an option list every option that \<open>BreadthFirst\<close> does not
  support (\<open>ArcVisitor\<close>, \<open>OkArcVisitor\<close>, \<open>Visited\<close>, \<open>PathBits\<close>), wherever it stands
  in the list, does not change the outcome of the call: the same panic or the same
  FromList, frontiers and world, which holds the log of the visitor invocations. So adding
  such options to a call changes nothing and rejects nothing.
\<close>

theorem BreadthFirst_ignores_unsupported_options:
  "BreadthFirst g s (filter (\<lambda>op. \<not> bfs_unsupported op) opt) w = BreadthFirst g s opt w"
proof -
  have "bfs_part (configure s (filter (\<lambda>op. \<not> bfs_unsupported op) opt)) = bfs_part (configure s opt)"
    unfolding configure_def by (rule bfs_part_foldl_filter) simp
  then have "BreadthFirst_cf g (bfs_part (configure s (filter (\<lambda>op. \<not> bfs_unsupported op) opt))) w
      = BreadthFirst_cf g (bfs_part (configure s opt)) w" by simp
  then show ?thesis by (simp add: BreadthFirst_def BreadthFirst_cf_bfs_part)
qed

section \<open>Stopping a depth-first traversal\<close>

text \<open>
  \<open>ok_visits\<close> reads off a log the invocations of the conditional node visitor, with
  their answers; \<open>stops\<close> holds of an invocation of a conditional visitor that answered
  false. \<open>dfs_rel st st' ok evs\<close> relates the states before and after a call of \<open>df\<close>
  that returned \<open>ok\<close> and logged \<open>evs\<close>, in a traversal with a conditional node visitor:
  the nodes the visitor was invoked on are distinct, were not visited before and are
  exactly the bits added to the visited bitset; no conditional visitor answered false
  before the last event, and none at all if \<open>ok\<close>.
\<close>

fun ok_visits :: "event list \<Rightarrow> (NI \<times> bool) list" where
  "ok_visits [] = []"
| "ok_visits (OkNodeVisit n r # es) = (n, r) # ok_visits es"
| "ok_visits (e # es) = ok_visits es"

fun stops :: "event \<Rightarrow> bool" where
  "stops (OkNodeVisit n r) = (\<not> r)"
| "stops (OkArcVisit n x r) = (\<not> r)"
| "stops e = False"

definition dfs_rel :: "('s, 'r) dfs_state \<Rightarrow> ('s, 'r) dfs_state \<Rightarrow> bool \<Rightarrow> event list \<Rightarrow> bool" where
  "dfs_rel st st' ok evs \<longleftrightarrow>
     length (vis st') = length (vis st) \<and>
     trace (dworld st') = trace (dworld st) @ evs \<and>
     distinct (map fst (ok_visits evs)) \<and>
     (\<forall>m\<in>set (map fst (ok_visits evs)). 0 \<le> m \<and> nat m < length (vis st) \<and> \<not> vis st ! nat m) \<and>
     (\<forall>i<length (vis st). vis st' ! i \<longleftrightarrow> vis st ! i \<or> int i \<in> set (map fst (ok_visits evs))) \<and>
     (ok \<longrightarrow> (\<forall>e\<in>set evs. \<not> stops e)) \<and>
     (\<forall>e\<in>set (butlast evs). \<not> stops e)"

lemma ok_visits_append: "ok_visits (es @ fs) = ok_visits es @ ok_visits fs"
  by (induction es rule: ok_visits.induct) simp_all

lemma dfs_rel_trans:
  assumes a: "dfs_rel st st1 True evs1" and b: "dfs_rel st1 st2 ok evs2"
  shows "dfs_rel st st2 ok (evs1 @ evs2)"
proof -
  let ?n1 = "map fst (ok_visits evs1)" and ?n2 = "map fst (ok_visits evs2)"
  from a b have len: "length (vis st1) = length (vis st)" "length (vis st2) = length (vis st)"
    by (simp_all add: dfs_rel_def)
  have n1: "\<forall>m\<in>set ?n1. 0 \<le> m \<and> nat m < length (vis st) \<and> \<not> vis st ! nat m \<and> vis st1 ! nat m"
    using a by (auto simp: dfs_rel_def)
  have n2: "\<forall>m\<in>set ?n2. 0 \<le> m \<and> nat m < length (vis st) \<and> \<not> vis st1 ! nat m"
    using b len by (auto simp: dfs_rel_def)
  have n2': "\<forall>m\<in>set ?n2. \<not> vis st ! nat m"
  proof
    fix m assume "m \<in> set ?n2"
    with n2 have "nat m < length (vis st)" "\<not> vis st1 ! nat m" by auto
    with a show "\<not> vis st ! nat m" by (simp add: dfs_rel_def)
  qed
  from n1 n2 have disj: "set ?n1 \<inter> set ?n2 = {}" by blast
  have d: "distinct (map fst (ok_visits (evs1 @ evs2)))"
    using a b disj by (simp add: ok_visits_append dfs_rel_def)
  have un: "\<forall>m\<in>set (map fst (ok_visits (evs1 @ evs2))). 0 \<le> m \<and> nat m < length (vis st) \<and> \<not> vis st ! nat m"
    using n1 n2 n2' by (auto simp: ok_visits_append)
  have v: "\<forall>i<length (vis st). vis st2 ! i \<longleftrightarrow> vis st ! i \<or> int i \<in> set (map fst (ok_visits (evs1 @ evs2)))"
  proof (intro allI impI)
    fix i assume i: "i < length (vis st)"
    with a have "vis st1 ! i \<longleftrightarrow> vis st ! i \<or> int i \<in> set ?n1" by (simp add: dfs_rel_def)
    moreover from i b len have "vis st2 ! i \<longleftrightarrow> vis st1 ! i \<or> int i \<in> set ?n2" by (simp add: dfs_rel_def)
    ultimately show "vis st2 ! i \<longleftrightarrow> vis st ! i \<or> int i \<in> set (map fst (ok_visits (evs1 @ evs2)))"
      by (auto simp: ok_visits_append)
  qed
  have s1: "\<forall>e\<in>set evs1. \<not> stops e" using a by (simp add: dfs_rel_def)
  have ok: "ok \<longrightarrow> (\<forall>e\<in>set (evs1 @ evs2). \<not> stops e)"
    using s1 b by (auto simp: dfs_rel_def)
  have bl: "\<forall>e\<in>set (butlast (evs1 @ evs2)). \<not> stops e"
  proof (cases "evs2 = []")
    case True with s1 show ?thesis by (auto dest: in_set_butlastD)
  next
    case False
    with s1 b show ?thesis by (auto simp: butlast_append dfs_rel_def)
  qed
  from a b have tr: "trace (dworld st2) = trace (dworld st) @ evs1 @ evs2" by (simp add: dfs_rel_def)
  from len tr d un v ok bl show ?thesis unfolding dfs_rel_def by blast
qed

lemma dfs_rel_refl: "dfs_rel st st ok []"
  by (simp add: dfs_rel_def)

lemma dfs_rel_pbits: "dfs_rel st st' ok evs \<Longrightarrow> dfs_rel st (st'\<lparr>pbits := pb\<rparr>) ok evs"
  by (simp add: dfs_rel_def)

lemma dfs_rel_rnd:
  "dfs_rel \<lparr>vis = b, pbits = pb, dworld = w\<lparr>rnd := r\<rparr>\<rparr> st' ok evs
     \<Longrightarrow> dfs_rel \<lparr>vis = b, pbits = pb, dworld = w\<rparr> st' ok evs"
  by (simp add: dfs_rel_def)

lemma visit_arc_rel:
  assumes "visit_arc cf n x (dworld st) = (ok, w)"
  shows "\<exists>evs. dfs_rel st (st\<lparr>dworld := w\<rparr>) ok evs"
proof -
  define evs where "evs = (case arcVisitor cf of None \<Rightarrow> [] | Some v \<Rightarrow> [ArcVisit n x])
      @ (case okArcVisitor cf of None \<Rightarrow> [] | Some v \<Rightarrow> [OkArcVisit n x ok])"
  from assms have "trace w = trace (dworld st) @ evs"
    by (auto simp: visit_arc_def evs_def Let_def split: option.splits)
  moreover have "ok_visits evs = []" by (simp add: evs_def split: option.splits)
  moreover have "ok \<longrightarrow> (\<forall>e\<in>set evs. \<not> stops e)" by (auto simp: evs_def split: option.splits)
  moreover have "\<forall>e\<in>set (butlast evs). \<not> stops e"
    by (auto simp: evs_def butlast_append split: option.splits)
  ultimately have "dfs_rel st (st\<lparr>dworld := w\<rparr>) ok evs" by (simp add: dfs_rel_def)
  then show ?thesis ..
qed

lemma visit_node_rel:
  assumes "visit_node cf n (dworld st) = (ok, w)" and "okNodeVisitor cf \<noteq> None"
    and "Bit (vis st) n = Inr False" and "SetBit (vis st) n True = Inr b1"
  shows "\<exists>evs. dfs_rel st \<lparr>vis = b1, pbits = pb1, dworld = w\<rparr> ok evs"
proof -
  define evs where "evs = (case nodeVisitor cf of None \<Rightarrow> [] | Some v \<Rightarrow> [NodeVisit n]) @ [OkNodeVisit n ok]"
  from assms(1,2) have tr: "trace w = trace (dworld st) @ evs"
    by (auto simp: visit_node_def evs_def Let_def split: option.splits)
  have ov: "ok_visits evs = [(n, ok)]" by (simp add: evs_def split: option.splits)
  from assms(3) have n: "0 \<le> n" "nat n < length (vis st)" "\<not> vis st ! nat n"
    by (auto simp: Bit_def split: if_splits)
  from assms(4) n have b1: "b1 = (vis st)[nat n := True]" by (auto simp: SetBit_def split: if_splits)
  have v: "\<forall>i<length (vis st). b1 ! i \<longleftrightarrow> vis st ! i \<or> int i \<in> set (map fst (ok_visits evs))"
    using n by (auto simp: b1 ov nth_list_update)
  have "ok \<longrightarrow> (\<forall>e\<in>set evs. \<not> stops e)" by (auto simp: evs_def split: option.splits)
  moreover have "\<forall>e\<in>set (butlast evs). \<not> stops e"
    by (auto simp: evs_def butlast_append split: option.splits)
  ultimately have "dfs_rel st \<lparr>vis = b1, pbits = pb1, dworld = w\<rparr> ok evs"
    using tr ov n v by (simp add: dfs_rel_def b1)
  then show ?thesis ..
qed


lemma dfs_rel_same_start:
  "vis st0 = vis st \<Longrightarrow> trace (dworld st0) = trace (dworld st) \<Longrightarrow> dfs_rel st0 st' ok evs
     \<Longrightarrow> dfs_rel st st' ok evs"
  by (simp add: dfs_rel_def)

text \<open>The ways in which \<open>df\<close> and its arc loop return a state.\<close>

definition arc_order :: "('s, 'r) config \<Rightarrow> NI list \<Rightarrow> ('s, 'r) world \<Rightarrow> nat list \<times> ('s, 'r) world" where
  "arc_order cf to w =
     (case rand cf of
        None \<Rightarrow> ([0..<length to], w)
      | Some perm \<Rightarrow> (fst (perm (rnd w) (length to)), w\<lparr>rnd := snd (perm (rnd w) (length to))\<rparr>))"

lemma trace_arc_order: "trace (snd (arc_order cf to w)) = trace w"
  by (simp add: arc_order_def split: option.splits)

lemma df_Suc_arc_order:
  "df cf g (Suc k) n st =
     (case SetBit (vis st) n True of
        Inl e \<Rightarrow> Some (Inl e)
      | Inr b1 \<Rightarrow>
          (case set_path_bit (pbits st) n True of
             Inl e \<Rightarrow> Some (Inl e)
           | Inr pb1 \<Rightarrow>
               (case visit_node cf n (dworld st) of (ok, w) \<Rightarrow>
                  if \<not> ok then Some (Inr (False, \<lparr>vis = b1, pbits = pb1, dworld = w\<rparr>))
                  else if n < 0 \<or> int (length g) \<le> n then Some (Inl IndexOutOfRange)
                  else
                    (case df_arcs cf g k n (g ! nat n) (fst (arc_order cf (g ! nat n) w))
                            \<lparr>vis = b1, pbits = pb1, dworld = snd (arc_order cf (g ! nat n) w)\<rparr> of
                       None \<Rightarrow> None
                     | Some (Inl e) \<Rightarrow> Some (Inl e)
                     | Some (Inr (ok', st')) \<Rightarrow>
                         if \<not> ok' then Some (Inr (False, st'))
                         else (case set_path_bit (pbits st') n False of
                                 Inl e \<Rightarrow> Some (Inl e)
                               | Inr pb' \<Rightarrow> Some (Inr (True, st'\<lparr>pbits := pb'\<rparr>)))))))"
  by (simp add: arc_order_def split: sum.splits prod.splits option.splits)

lemma df_Suc_cases:
  assumes "df cf g (Suc k) n st = Some (Inr (ok, st'))"
  obtains (stop) b1 pb1 w where
      "SetBit (vis st) n True = Inr b1" "set_path_bit (pbits st) n True = Inr pb1"
      "visit_node cf n (dworld st) = (False, w)" "\<not> ok" "st' = \<lparr>vis = b1, pbits = pb1, dworld = w\<rparr>"
  | (arcs) b1 pb1 w ok' st2 where
      "SetBit (vis st) n True = Inr b1" "set_path_bit (pbits st) n True = Inr pb1"
      "visit_node cf n (dworld st) = (True, w)" "0 \<le> n" "nat n < length g"
      "df_arcs cf g k n (g ! nat n) (fst (arc_order cf (g ! nat n) w))
         \<lparr>vis = b1, pbits = pb1, dworld = snd (arc_order cf (g ! nat n) w)\<rparr> = Some (Inr (ok', st2))"
      "ok = ok'" "\<exists>pb'. st' = st2\<lparr>pbits := pb'\<rparr>"
proof -
  from assms obtain b1 where b1: "SetBit (vis st) n True = Inr b1"
    by (cases "SetBit (vis st) n True") (simp_all add: df_Suc_arc_order del: df.simps)
  from assms b1 obtain pb1 where pb1: "set_path_bit (pbits st) n True = Inr pb1"
    by (cases "set_path_bit (pbits st) n True") (simp_all add: df_Suc_arc_order del: df.simps)
  obtain ok1 w where v: "visit_node cf n (dworld st) = (ok1, w)"
    by (cases "visit_node cf n (dworld st)")
  show thesis
  proof (cases ok1)
    case False
    with assms b1 pb1 v have "\<not> ok" "st' = \<lparr>vis = b1, pbits = pb1, dworld = w\<rparr>"
      by (simp_all add: df_Suc_arc_order del: df.simps)
    with stop[OF b1 pb1] v False show thesis by simp
  next
    case True
    with assms b1 pb1 v have rng: "0 \<le> n" "nat n < length g"
      by (auto simp: df_Suc_arc_order simp del: df.simps split: if_splits)
    let ?r = "df_arcs cf g k n (g ! nat n) (fst (arc_order cf (g ! nat n) w))
         \<lparr>vis = b1, pbits = pb1, dworld = snd (arc_order cf (g ! nat n) w)\<rparr>"
    from assms b1 pb1 v True rng obtain ok' st2 where r: "?r = Some (Inr (ok', st2))"
      by (cases ?r) (auto simp: df_Suc_arc_order simp del: df.simps split: sum.splits if_splits)
    from assms b1 pb1 v True rng r have "ok = ok'" "\<exists>pb'. st' = st2\<lparr>pbits := pb'\<rparr>"
      by (auto simp: df_Suc_arc_order simp del: df.simps split: sum.splits if_splits
               intro: exI[of _ "pbits st2"])
    with arcs[OF b1 pb1 _ rng r] v True show thesis by simp
  qed
qed

lemma df_arcs_Cons_cases:
  assumes "df_arcs cf g k n to (x # xs) st = Some (Inr (ok, st'))"
  obtains (stop) w where
      "visit_arc cf n (int x) (dworld st) = (False, w)" "\<not> ok" "st' = st\<lparr>dworld := w\<rparr>"
  | (seen) w where
      "visit_arc cf n (int x) (dworld st) = (True, w)" "x < length to" "Bit (vis st) (to ! x) = Inr True"
      "df_arcs cf g k n to xs (st\<lparr>dworld := w\<rparr>) = Some (Inr (ok, st'))"
  | (down_stop) w where
      "visit_arc cf n (int x) (dworld st) = (True, w)" "x < length to" "Bit (vis st) (to ! x) = Inr False"
      "df cf g k (to ! x) (st\<lparr>dworld := w\<rparr>) = Some (Inr (False, st'))" "\<not> ok"
  | (down) w st1 where
      "visit_arc cf n (int x) (dworld st) = (True, w)" "x < length to" "Bit (vis st) (to ! x) = Inr False"
      "df cf g k (to ! x) (st\<lparr>dworld := w\<rparr>) = Some (Inr (True, st1))"
      "df_arcs cf g k n to xs st1 = Some (Inr (ok, st'))"
proof -
  obtain ok1 w where v: "visit_arc cf n (int x) (dworld st) = (ok1, w)"
    by (cases "visit_arc cf n (int x) (dworld st)")
  show thesis
  proof (cases ok1)
    case False
    with assms v stop show thesis by simp
  next
    case True
    with assms v have x: "x < length to" by (auto split: if_splits)
    with assms v True obtain sn where sn: "Bit (vis st) (to ! x) = Inr sn"
      by (cases "Bit (vis st) (to ! x)") auto
    show thesis
    proof (cases sn)
      case True
      with assms v \<open>ok1\<close> x sn seen show thesis by simp
    next
      case False
      with assms v \<open>ok1\<close> x sn obtain ok2 st1 where
        d: "df cf g k (to ! x) (st\<lparr>dworld := w\<rparr>) = Some (Inr (ok2, st1))"
        by (cases "df cf g k (to ! x) (st\<lparr>dworld := w\<rparr>)") (auto split: sum.splits)
      show thesis
      proof (cases ok2)
        case True
        with assms v \<open>ok1\<close> x sn False d down show thesis by simp
      next
        case f: False
        with assms v \<open>ok1\<close> x sn False d have "\<not> ok" "st' = st1" by simp_all
        with down_stop v \<open>ok1\<close> x sn False d f show thesis by simp
      qed
    qed
  qed
qed

lemma df_arcs_rel_step:
  assumes IH: "\<And>n st ok st'. df cf g k n st = Some (Inr (ok, st')) \<Longrightarrow> Bit (vis st) n = Inr False
                 \<Longrightarrow> \<exists>evs. dfs_rel st st' ok evs"
  shows "df_arcs cf g k n to xs st = Some (Inr (ok, st')) \<Longrightarrow> \<exists>evs. dfs_rel st st' ok evs"
proof (induction xs arbitrary: st)
  case Nil
  then show ?case by (auto intro: dfs_rel_refl)
next
  case (Cons x xs)
  from Cons.prems show ?case
  proof (cases rule: df_arcs_Cons_cases)
    case (stop w)
    with visit_arc_rel[OF stop(1)] show ?thesis by simp
  next
    case (seen w)
    from visit_arc_rel[OF seen(1)] obtain e1 where "dfs_rel st (st\<lparr>dworld := w\<rparr>) True e1" ..
    moreover from Cons.IH[OF seen(4)] obtain e2 where "dfs_rel (st\<lparr>dworld := w\<rparr>) st' ok e2" ..
    ultimately show ?thesis by (blast intro: dfs_rel_trans)
  next
    case (down_stop w)
    from visit_arc_rel[OF down_stop(1)] obtain e1 where "dfs_rel st (st\<lparr>dworld := w\<rparr>) True e1" ..
    moreover from IH[OF down_stop(4)] down_stop(3)
    obtain e2 where "dfs_rel (st\<lparr>dworld := w\<rparr>) st' False e2" by auto
    ultimately show ?thesis using down_stop(5) by (auto intro: dfs_rel_trans)
  next
    case (down w st1)
    from visit_arc_rel[OF down(1)] obtain e1 where "dfs_rel st (st\<lparr>dworld := w\<rparr>) True e1" ..
    moreover from IH[OF down(4)] down(3)
    obtain e2 where "dfs_rel (st\<lparr>dworld := w\<rparr>) st1 True e2" by auto
    moreover from Cons.IH[OF down(5)] obtain e3 where "dfs_rel st1 st' ok e3" ..
    ultimately show ?thesis by (blast intro: dfs_rel_trans)
  qed
qed

lemma df_rel:
  "df cf g k n st = Some (Inr (ok, st')) \<Longrightarrow> okNodeVisitor cf \<noteq> None \<Longrightarrow> Bit (vis st) n = Inr False
     \<Longrightarrow> \<exists>evs. dfs_rel st st' ok evs"
proof (induction k arbitrary: n st ok st')
  case 0
  then show ?case by simp
next
  case (Suc k)
  from Suc.prems(1) show ?case
  proof (cases rule: df_Suc_cases)
    case (stop b1 pb1 w)
    with visit_node_rel[OF stop(3) Suc.prems(2,3) stop(1), of pb1] show ?thesis by simp
  next
    case (arcs b1 pb1 w ok' st2)
    let ?st1 = "\<lparr>vis = b1, pbits = pb1, dworld = w\<rparr>"
    from visit_node_rel[OF arcs(3) Suc.prems(2,3) arcs(1), of pb1]
    obtain e1 where e1: "dfs_rel st ?st1 True e1" ..
    have "\<exists>evs. dfs_rel \<lparr>vis = b1, pbits = pb1, dworld = snd (arc_order cf (g ! nat n) w)\<rparr> st2 ok' evs"
      by (rule df_arcs_rel_step[OF _ arcs(6)]) (rule Suc.IH[OF _ Suc.prems(2)])
    then obtain e2 where "dfs_rel \<lparr>vis = b1, pbits = pb1, dworld = snd (arc_order cf (g ! nat n) w)\<rparr> st2 ok' e2" ..
    then have "dfs_rel ?st1 st2 ok' e2"
      by (rule dfs_rel_same_start[rotated 2]) (simp_all add: trace_arc_order)
    from dfs_rel_trans[OF e1 this] arcs(7,8) show ?thesis
      by (auto intro: dfs_rel_pbits)
  qed
qed


lemma ok_visits_no_stop: "\<forall>e\<in>set es. \<not> stops e \<Longrightarrow> (n, False) \<notin> set (ok_visits es)"
  by (induction es rule: ok_visits.induct) auto

lemma ok_visits_stop_last:
  assumes "\<forall>e\<in>set (butlast es). \<not> stops e" and "(n, False) \<in> set (ok_visits es)"
  shows "es \<noteq> [] \<and> last es = OkNodeVisit n False \<and>
         ok_visits es = ok_visits (butlast es) @ [(n, False)]"
proof -
  from assms(2) have ne: "es \<noteq> []" by auto
  then have es: "es = butlast es @ [last es]" by simp
  from assms(1) have "(n, False) \<notin> set (ok_visits (butlast es))" by (rule ok_visits_no_stop)
  with assms(2) es have "(n, False) \<in> set (ok_visits [last es])"
    by (metis Un_iff ok_visits_append set_append)
  then have l: "last es = OkNodeVisit n False"
    by (cases "last es") (auto split: if_splits)
  with es have "ok_visits es = ok_visits (butlast es) @ [(n, False)]"
    by (metis ok_visits.simps(1,2) ok_visits_append)
  with ne l show ?thesis by simp
qed

lemma take3_snoc:
  assumes "take 3 (xs @ [z]) = [a, b, z']" and "z' \<notin> set xs"
  shows "xs = [a, b] \<and> z = z'"
proof (cases "length xs \<le> 2")
  case True
  with assms(1) have "xs @ [z] = [a, b] @ [z']" by simp
  then show ?thesis by (simp only: append1_eq_conv)
next
  case False
  then have "take 3 (xs @ [z]) = take 3 xs" by simp
  with assms(1) have "take 3 xs = [a, b, z']" by simp
  then have "z' \<in> set (take 3 xs)" by (simp only: list.set insert_iff simp_thms)
  with assms(2) show ?thesis by (auto dest: in_set_takeD)
qed

text \<open>
  What a returning \<open>DepthFirst\<close> with a conditional node visitor and a fresh visited
  bitset has done when the visitor answered true on the first and the second node visited
  and false on the third.
\<close>

lemma DepthFirst_third_stop:
  assumes run: "DepthFirst g s options fuel w = Some (Inr st')"
    and fresh: "visBits (configure s options) = None"
    and visitor: "okNodeVisitor (configure s options) = Some v"
    and log: "trace w = []"
    and third: "take 3 (ok_visits (trace (dworld st'))) = [(n1, True), (n2, True), (n3, False)]"
  shows "ok_visits (trace (dworld st')) = [(n1, True), (n2, True), (n3, False)] \<and>
         last (trace (dworld st')) = OkNodeVisit n3 False \<and>
         distinct [n1, n2, n3] \<and> length (vis st') = length g \<and>
         (\<forall>m\<in>{n1, n2, n3}. 0 \<le> m \<and> nat m < length g) \<and>
         (\<forall>i<length g. vis st' ! i \<longleftrightarrow> int i \<in> {n1, n2, n3})"
proof -
  let ?cf = "configure s options"
  let ?st0 = "\<lparr>vis = New (length g), pbits = map_option ClearAll (pathBits ?cf), dworld = w\<rparr>"
  from run fresh obtain ok where d: "df ?cf g fuel s ?st0 = Some (Inr (ok, st'))"
    by (auto simp: DepthFirst_def DepthFirst_cf_def df_start_def start_configure
             split: option.splits sum.splits)
  then obtain k where k: "fuel = Suc k" by (cases fuel) simp_all
  from d[unfolded k] have "\<exists>b1. SetBit (vis ?st0) s True = Inr b1"
    by (cases rule: df_Suc_cases) auto
  then have s: "Bit (vis ?st0) s = Inr False"
    by (auto simp: SetBit_def Bit_def New_def split: if_splits)
  from df_rel[OF d _ s] visitor obtain evs where r: "dfs_rel ?st0 st' ok evs" by auto
  with log have tr: "trace (dworld st') = evs" by (simp add: dfs_rel_def)
  from third have "(n3, False) \<in> set (take 3 (ok_visits evs))" by (simp add: tr)
  then have in3: "(n3, False) \<in> set (ok_visits evs)" by (rule in_set_takeD)
  from r have bl: "\<forall>e\<in>set (butlast evs). \<not> stops e" by (simp add: dfs_rel_def)
  from ok_visits_stop_last[OF bl in3] have
    l: "last evs = OkNodeVisit n3 False" and
    ov: "ok_visits evs = ok_visits (butlast evs) @ [(n3, False)]" by simp_all
  from bl have "(n3, False) \<notin> set (ok_visits (butlast evs))" by (rule ok_visits_no_stop)
  with third[unfolded tr] ov have "ok_visits (butlast evs) = [(n1, True), (n2, True)]"
    using take3_snoc[of "ok_visits (butlast evs)" "(n3, False)" "(n1, True)" "(n2, True)" "(n3, False)"]
    by simp
  with ov have all: "ok_visits evs = [(n1, True), (n2, True), (n3, False)]" by simp
  from r all have dis: "distinct [n1, n2, n3]" and len: "length (vis st') = length g"
    and rng: "\<forall>m\<in>{n1, n2, n3}. 0 \<le> m \<and> nat m < length g"
    and bits: "\<forall>i<length g. vis st' ! i \<longleftrightarrow> int i \<in> {n1, n2, n3}"
    by (simp_all add: dfs_rel_def New_def)
  from all l dis len rng bits show ?thesis by (simp add: tr)
qed

section \<open>A FromList as an undirected graph\<close>

text \<open>
  \<open>sym_arcs g\<close>: every arc of \<open>g\<close> leads to a node of \<open>g\<close>, and between two different
  nodes there are as many arcs in one direction as in the other.
\<close>

definition sym_arcs :: "AdjacencyList \<Rightarrow> bool" where
  "sym_arcs g \<longleftrightarrow>
     (\<forall>a<length g. \<forall>x\<in>set (g ! a). 0 \<le> x \<and> x < int (length g)) \<and>
     (\<forall>a<length g. \<forall>b<length g. a \<noteq> b \<longrightarrow> count_list (g ! a) (int b) = count_list (g ! b) (int a))"

definition bounds_ok :: "PathEnd list \<Rightarrow> nat \<Rightarrow> bool" where
  "bounds_ok ps len \<longleftrightarrow> (\<forall>p\<in>set ps. - 1 \<le> From p \<and> From p < int len)"

lemma FromList_BoundsOk_loop_iff: "fst (FromList_BoundsOk_loop ps n len) \<longleftrightarrow> bounds_ok ps len"
  by (induction ps arbitrary: n) (auto simp: bounds_ok_def)

lemma sym_arcs_add:
  assumes s: "sym_arcs g" and n: "n < length g" and f: "f < length g"
  shows "sym_arcs (let g1 = (if int f \<noteq> int n then g[n := g ! n @ [int f]] else g)
                   in g1[f := g1 ! f @ [int n]])"
proof (cases "f = n")
  case True
  let ?g = "g[n := g ! n @ [int n]]"
  have nth: "?g ! a = (if a = n then g ! n @ [int n] else g ! a)" if "a < length g" for a
    using that by (simp add: nth_list_update)
  have r: "\<forall>a<length ?g. \<forall>x\<in>set (?g ! a). 0 \<le> x \<and> x < int (length ?g)"
  proof (intro allI impI ballI)
    fix a x assume "a < length ?g" "x \<in> set (?g ! a)"
    then show "0 \<le> x \<and> x < int (length ?g)"
      using s n nth[of a] by (auto simp: sym_arcs_def split: if_splits)
  qed
  have c: "\<forall>a<length ?g. \<forall>b<length ?g. a \<noteq> b \<longrightarrow> count_list (?g ! a) (int b) = count_list (?g ! b) (int a)"
  proof (intro allI impI)
    fix a b assume ab: "a < length ?g" "b < length ?g" "a \<noteq> b"
    with s have "count_list (g ! a) (int b) = count_list (g ! b) (int a)"
      by (simp add: sym_arcs_def)
    with ab show "count_list (?g ! a) (int b) = count_list (?g ! b) (int a)"
      using nth[of a] nth[of b] by auto
  qed
  from r c have "sym_arcs ?g" unfolding sym_arcs_def by blast
  with True show ?thesis by simp
next
  case False
  let ?g = "(g[n := g ! n @ [int f]])[f := g ! f @ [int n]]"
  have nth: "?g ! a = (if a = f then g ! f @ [int n] else if a = n then g ! n @ [int f] else g ! a)"
    if "a < length g" for a
    using that False by (simp add: nth_list_update)
  have r: "\<forall>a<length ?g. \<forall>x\<in>set (?g ! a). 0 \<le> x \<and> x < int (length ?g)"
  proof (intro allI impI ballI)
    fix a x assume "a < length ?g" "x \<in> set (?g ! a)"
    then show "0 \<le> x \<and> x < int (length ?g)"
      using s n f nth[of a] by (auto simp: sym_arcs_def split: if_splits)
  qed
  have c: "\<forall>a<length ?g. \<forall>b<length ?g. a \<noteq> b \<longrightarrow> count_list (?g ! a) (int b) = count_list (?g ! b) (int a)"
  proof (intro allI impI)
    fix a b assume ab: "a < length ?g" "b < length ?g" "a \<noteq> b"
    with s have "count_list (g ! a) (int b) = count_list (g ! b) (int a)"
      by (simp add: sym_arcs_def)
    with ab False show "count_list (?g ! a) (int b) = count_list (?g ! b) (int a)"
      using nth[of a] nth[of b] by auto
  qed
  from r c have "sym_arcs ?g" unfolding sym_arcs_def by blast
  moreover from False have "(let g1 = (if int f \<noteq> int n then g[n := g ! n @ [int f]] else g)
                   in g1[f := g1 ! f @ [int n]]) = ?g" by simp
  ultimately show ?thesis by simp
qed

lemma Undirected_loop_sym:
  "bounds_ok ps (length g) \<Longrightarrow> n + length ps = length g \<Longrightarrow> sym_arcs g
     \<Longrightarrow> \<exists>g'. Undirected_loop ps n g = Inr g' \<and> length g' = length g \<and> sym_arcs g'"
proof (induction ps arbitrary: n g)
  case Nil
  then show ?case by simp
next
  case (Cons p ps)
  from Cons.prems(1) have b: "bounds_ok ps (length g)" and p: "- 1 \<le> From p" "From p < int (length g)"
    by (simp_all add: bounds_ok_def)
  from Cons.prems(2) have n: "n < length g" "Suc n + length ps = length g" by simp_all
  show ?case
  proof (cases "From p = - 1")
    case True
    with Cons.IH[OF b n(2) Cons.prems(3)] show ?thesis by simp
  next
    case False
    with p have f: "0 \<le> From p" "nat (From p) < length g" by linarith+
    let ?g = "(let g1 = (if From p \<noteq> int n then g[n := g ! n @ [From p]] else g)
              in g1[nat (From p) := g1 ! nat (From p) @ [int n]])"
    have "int (nat (From p)) = From p" using f(1) by simp
    with sym_arcs_add[OF Cons.prems(3) n(1) f(2)] have s: "sym_arcs ?g" by (simp only:)
    have l: "length ?g = length g" by (simp add: Let_def)
    from b l have b': "bounds_ok ps (length ?g)" by simp
    from n l have n': "Suc n + length ps = length ?g" by simp
    have e: "Undirected_loop (p # ps) n g = Undirected_loop ps (Suc n) ?g"
      using False f n p by simp
    from Cons.IH[OF b' n' s] show ?thesis unfolding e l .
  qed
qed


lemma first_index_Some: "first_index x xs = Some i \<Longrightarrow> i < length xs \<and> xs ! i = x"
  by (induction xs arbitrary: i) (auto split: if_splits)

lemma first_index_None: "first_index x xs = None \<Longrightarrow> count_list xs x = 0"
  by (induction xs) (auto split: if_splits)

lemma mset_swap_remove:
  assumes "i < length xs"
  shows "mset (butlast (xs[i := last xs])) = mset xs - {#xs ! i#}"
proof -
  from assms obtain ys l where xs: "xs = ys @ [l]" by (cases xs rule: rev_cases) auto
  show ?thesis
  proof (cases "i < length ys")
    case True
    then have a: "butlast (xs[i := last xs]) = ys[i := l]" by (simp add: xs list_update_append)
    from True have b: "mset (ys[i := l]) = add_mset l (mset ys - {#ys ! i#})"
      by (rule mset_update)
    from True have d: "mset xs - {#xs ! i#} = add_mset l (mset ys - {#ys ! i#})"
      by (simp add: xs nth_append)
    show ?thesis by (simp only: a b d)
  next
    case False
    with assms have "i = length ys" by (simp add: xs)
    then show ?thesis by (simp add: xs)
  qed
qed

lemma count_swap_remove:
  assumes "i < length xs"
  shows "count_list (butlast (xs[i := last xs])) y = count_list xs y - (if y = xs ! i then 1 else 0)"
proof -
  have "count_list (butlast (xs[i := last xs])) y = count (mset (butlast (xs[i := last xs]))) y"
    by (simp only: count_mset)
  also have "\<dots> = count (mset xs - {#xs ! i#}) y"
    by (simp only: mset_swap_remove[OF assms])
  also have "\<dots> = count_list xs y - (if y = xs ! i then 1 else 0)"
    by (simp add: count_mset)
  finally show ?thesis .
qed

lemma set_swap_remove:
  assumes "i < length xs"
  shows "set (butlast (xs[i := last xs])) \<subseteq> set xs"
proof
  fix x assume "x \<in> set (butlast (xs[i := last xs]))"
  then have "x \<in># mset (butlast (xs[i := last xs]))" by simp
  then have "x \<in># mset xs - {#xs ! i#}" by (simp only: mset_swap_remove[OF assms])
  then have "x \<in># mset xs" by (rule in_diffD)
  then show "x \<in> set xs" by simp
qed

text \<open>
  The invariant of the pairing loops, \<open>M\<close> being the arcs taken up so far: between two
  different nodes the unpaired arcs are the surplus of one direction over the other.
\<close>

definition cU :: "AdjacencyList \<Rightarrow> nat \<Rightarrow> nat \<Rightarrow> nat" where
  "cU U a b = count_list (U ! a) (int b)"

definition pair_inv :: "nat \<Rightarrow> AdjacencyList \<Rightarrow> (nat \<times> nat) multiset \<Rightarrow> bool" where
  "pair_inv N U M \<longleftrightarrow>
     length U = N \<and>
     (\<forall>a<N. \<forall>x\<in>set (U ! a). 0 \<le> x \<and> x < int N \<and> x \<noteq> int a) \<and>
     (\<forall>a<N. \<forall>b<N. a \<noteq> b \<longrightarrow>
        cU U a b + count M (b, a) = cU U b a + count M (a, b) \<and> (cU U a b = 0 \<or> cU U b a = 0))"

lemma pair_arc_inv:
  assumes inv: "pair_inv N U M" and fr: "fr < N" and to: "0 \<le> to" "to < int N"
  shows "\<exists>U'. pair_arc fr to U = Inr U' \<and> pair_inv N U' (add_mset (fr, nat to) M)"
proof (cases "to = int fr")
  case True
  then have "pair_arc fr to U = Inr U" by (simp add: pair_arc_def)
  moreover from True inv have "pair_inv N U (add_mset (fr, nat to) M)"
    by (auto simp: pair_inv_def)
  ultimately show ?thesis by simp
next
  case ne: False
  define t where "t = nat to"
  from to ne have t: "t < N" "int t = to" "t \<noteq> fr" by (auto simp: t_def)
  from inv have len: "length U = N" by (simp add: pair_inv_def)
  from inv fr t have old: "cU U fr t + count M (t, fr) = cU U t fr + count M (fr, t)"
    "cU U fr t = 0 \<or> cU U t fr = 0" by (auto simp: pair_inv_def)
  have cM: "count (add_mset (fr, nat to) M) (x, y) = count M (x, y) + (if x = fr \<and> y = t then 1 else 0)"
    for x y by (simp add: t_def)
  show ?thesis
  proof (cases "first_index (int fr) (U ! t)")
    case (Some i)
    from first_index_Some[OF Some] have i: "i < length (U ! t)" "U ! t ! i = int fr" by simp_all
    let ?L = "butlast ((U ! t)[i := last (U ! t)])"
    let ?U = "U[t := ?L]"
    from Some ne to len have res: "pair_arc fr to U = Inr ?U"
      by (simp add: pair_arc_def t_def)
    have cL: "count_list ?L y = count_list (U ! t) y - (if y = int fr then 1 else 0)" for y
      using count_swap_remove[OF i(1), of y] i(2) by simp
    from nth_mem[OF i(1)] i(2) have "int fr \<in> set (U ! t)" by simp
    then have "count_list (U ! t) (int fr) \<noteq> 0" by (simp add: count_list_0_iff)
    then have pos: "0 < cU U t fr" by (simp add: cU_def)
    with old have z: "cU U fr t = 0" by simp
    have c': "cU ?U a b = cU U a b - (if a = t \<and> b = fr then 1 else 0)" if "a < N" for a b
      using that len t(1) cL[of "int b"] by (auto simp: cU_def nth_list_update)
    have 1: "\<forall>a<N. \<forall>x\<in>set (?U ! a). 0 \<le> x \<and> x < int N \<and> x \<noteq> int a"
    proof (intro allI impI ballI)
      fix a x assume a: "a < N" "x \<in> set (?U ! a)"
      with len t(1) set_swap_remove[OF i(1)] have "x \<in> set (U ! a)"
        by (auto simp: nth_list_update split: if_splits)
      with inv a show "0 \<le> x \<and> x < int N \<and> x \<noteq> int a" by (simp add: pair_inv_def)
    qed
    have 2: "\<forall>a<N. \<forall>b<N. a \<noteq> b \<longrightarrow>
        cU ?U a b + count (add_mset (fr, nat to) M) (b, a) = cU ?U b a + count (add_mset (fr, nat to) M) (a, b)
        \<and> (cU ?U a b = 0 \<or> cU ?U b a = 0)"
    proof (intro allI impI)
      fix a b assume ab: "a < N" "b < N" "a \<noteq> b"
      with inv have o: "cU U a b + count M (b, a) = cU U b a + count M (a, b)"
        "cU U a b = 0 \<or> cU U b a = 0" by (auto simp: pair_inv_def)
      show "cU ?U a b + count (add_mset (fr, nat to) M) (b, a) = cU ?U b a + count (add_mset (fr, nat to) M) (a, b)
        \<and> (cU ?U a b = 0 \<or> cU ?U b a = 0)" (is ?thesis)
      proof -
        consider (tf) "a = t" "b = fr" | (ft) "a = fr" "b = t"
          | (other) "\<not> (a = t \<and> b = fr)" "\<not> (a = fr \<and> b = t)" by blast
        then show ?thesis
        proof cases
          case tf
          from c'[OF ab(1), of b] tf t(3) have e1: "cU ?U a b = cU U t fr - 1" by simp
          from c'[OF ab(2), of a] tf t(3) have e2: "cU ?U b a = cU U fr t" by simp
          from cM[of b a] tf have e3: "count (add_mset (fr, nat to) M) (b, a) = count M (fr, t) + 1" by simp
          from cM[of a b] tf t(3) have e4: "count (add_mset (fr, nat to) M) (a, b) = count M (t, fr)" by simp
          from old pos z show ?thesis unfolding e1 e2 e3 e4 by linarith
        next
          case ft
          from c'[OF ab(1), of b] ft t(3) have e1: "cU ?U a b = cU U fr t" by simp
          from c'[OF ab(2), of a] ft t(3) have e2: "cU ?U b a = cU U t fr - 1" by simp
          from cM[of b a] ft t(3) have e3: "count (add_mset (fr, nat to) M) (b, a) = count M (t, fr)" by simp
          from cM[of a b] ft have e4: "count (add_mset (fr, nat to) M) (a, b) = count M (fr, t) + 1" by simp
          from old pos z show ?thesis unfolding e1 e2 e3 e4 by linarith
        next
          case other
          from c'[OF ab(1), of b] other have e1: "cU ?U a b = cU U a b" by simp
          from c'[OF ab(2), of a] other have e2: "cU ?U b a = cU U b a" by auto
          from cM[of b a] other have e3: "count (add_mset (fr, nat to) M) (b, a) = count M (b, a)" by auto
          from cM[of a b] other have e4: "count (add_mset (fr, nat to) M) (a, b) = count M (a, b)" by simp
          from o show ?thesis unfolding e1 e2 e3 e4 by blast
        qed
      qed
    qed
    from len 1 2 have "pair_inv N ?U (add_mset (fr, nat to) M)" by (simp add: pair_inv_def)
    with res show ?thesis by simp
  next
    case None
    let ?U = "U[fr := U ! fr @ [to]]"
    from None ne to len fr have res: "pair_arc fr to U = Inr ?U"
      by (simp add: pair_arc_def t_def)
    from first_index_None[OF None] have z: "cU U t fr = 0" by (simp add: cU_def)
    have c': "cU ?U a b = cU U a b + (if a = fr \<and> b = t then 1 else 0)" if "a < N" for a b
      using that len t fr by (auto simp: cU_def nth_list_update)
    have 1: "\<forall>a<N. \<forall>x\<in>set (?U ! a). 0 \<le> x \<and> x < int N \<and> x \<noteq> int a"
    proof (intro allI impI ballI)
      fix a x assume a: "a < N" "x \<in> set (?U ! a)"
      with len fr have "x \<in> set (U ! a) \<or> (a = fr \<and> x = to)"
        by (auto simp: nth_list_update split: if_splits)
      with inv a to ne show "0 \<le> x \<and> x < int N \<and> x \<noteq> int a" by (auto simp: pair_inv_def)
    qed
    have 2: "\<forall>a<N. \<forall>b<N. a \<noteq> b \<longrightarrow>
        cU ?U a b + count (add_mset (fr, nat to) M) (b, a) = cU ?U b a + count (add_mset (fr, nat to) M) (a, b)
        \<and> (cU ?U a b = 0 \<or> cU ?U b a = 0)"
    proof (intro allI impI)
      fix a b assume ab: "a < N" "b < N" "a \<noteq> b"
      with inv have o: "cU U a b + count M (b, a) = cU U b a + count M (a, b)"
        "cU U a b = 0 \<or> cU U b a = 0" by (auto simp: pair_inv_def)
      show "cU ?U a b + count (add_mset (fr, nat to) M) (b, a) = cU ?U b a + count (add_mset (fr, nat to) M) (a, b)
        \<and> (cU ?U a b = 0 \<or> cU ?U b a = 0)" (is ?thesis)
      proof -
        consider (tf) "a = t" "b = fr" | (ft) "a = fr" "b = t"
          | (other) "\<not> (a = t \<and> b = fr)" "\<not> (a = fr \<and> b = t)" by blast
        then show ?thesis
        proof cases
          case tf
          from c'[OF ab(1), of b] tf t(3) have e1: "cU ?U a b = cU U t fr" by simp
          from c'[OF ab(2), of a] tf t(3) have e2: "cU ?U b a = cU U fr t + 1" by simp
          from cM[of b a] tf have e3: "count (add_mset (fr, nat to) M) (b, a) = count M (fr, t) + 1" by simp
          from cM[of a b] tf t(3) have e4: "count (add_mset (fr, nat to) M) (a, b) = count M (t, fr)" by simp
          from old z show ?thesis unfolding e1 e2 e3 e4 by linarith
        next
          case ft
          from c'[OF ab(1), of b] ft t(3) have e1: "cU ?U a b = cU U fr t + 1" by simp
          from c'[OF ab(2), of a] ft t(3) have e2: "cU ?U b a = cU U t fr" by simp
          from cM[of b a] ft t(3) have e3: "count (add_mset (fr, nat to) M) (b, a) = count M (t, fr)" by simp
          from cM[of a b] ft have e4: "count (add_mset (fr, nat to) M) (a, b) = count M (fr, t) + 1" by simp
          from old z show ?thesis unfolding e1 e2 e3 e4 by linarith
        next
          case other
          from c'[OF ab(1), of b] other have e1: "cU ?U a b = cU U a b" by simp
          from c'[OF ab(2), of a] other have e2: "cU ?U b a = cU U b a" by auto
          from cM[of b a] other have e3: "count (add_mset (fr, nat to) M) (b, a) = count M (b, a)" by auto
          from cM[of a b] other have e4: "count (add_mset (fr, nat to) M) (a, b) = count M (a, b)" by simp
          from o show ?thesis unfolding e1 e2 e3 e4 by blast
        qed
      qed
    qed
    from len 1 2 have "pair_inv N ?U (add_mset (fr, nat to) M)" by (simp add: pair_inv_def)
    with res show ?thesis by simp
  qed
qed


fun arcs_ms :: "NI list list \<Rightarrow> nat \<Rightarrow> (nat \<times> nat) multiset" where
  "arcs_ms [] fr = {#}"
| "arcs_ms (to # rest) fr = mset (map (\<lambda>x. (fr, nat x)) to) + arcs_ms rest (Suc fr)"

lemma pair_arcs_inv:
  "pair_inv N U M \<Longrightarrow> fr < N \<Longrightarrow> \<forall>x\<in>set tos. 0 \<le> x \<and> x < int N
     \<Longrightarrow> \<exists>U'. pair_arcs fr tos U = Inr U' \<and> pair_inv N U' (M + mset (map (\<lambda>x. (fr, nat x)) tos))"
proof (induction tos arbitrary: U M)
  case Nil
  then show ?case by simp
next
  case (Cons to tos)
  from Cons.prems(3) have to: "0 \<le> to" "to < int N" and rest: "\<forall>x\<in>set tos. 0 \<le> x \<and> x < int N"
    by simp_all
  from pair_arc_inv[OF Cons.prems(1,2) to] obtain U1 where
    u1: "pair_arc fr to U = Inr U1" "pair_inv N U1 (add_mset (fr, nat to) M)" by blast
  from Cons.IH[OF u1(2) Cons.prems(2) rest] u1(1) show ?case by simp
qed

lemma pair_nodes_inv:
  "pair_inv N U M \<Longrightarrow> fr + length rest = N \<Longrightarrow> \<forall>to\<in>set rest. \<forall>x\<in>set to. 0 \<le> x \<and> x < int N
     \<Longrightarrow> \<exists>U'. pair_nodes rest fr U = Inr U' \<and> pair_inv N U' (M + arcs_ms rest fr)"
proof (induction rest arbitrary: U M fr)
  case Nil
  then show ?case by simp
next
  case (Cons to rest)
  from Cons.prems(2) have fr: "fr < N" "Suc fr + length rest = N" by simp_all
  from Cons.prems(3) have to: "\<forall>x\<in>set to. 0 \<le> x \<and> x < int N"
    and rest: "\<forall>to\<in>set rest. \<forall>x\<in>set to. 0 \<le> x \<and> x < int N" by simp_all
  from pair_arcs_inv[OF Cons.prems(1) fr(1) to] obtain U1 where
    u1: "pair_arcs fr to U = Inr U1" "pair_inv N U1 (M + mset (map (\<lambda>x. (fr, nat x)) to))" by blast
  from Cons.IH[OF u1(2) fr(2) rest] u1(1) show ?case by (simp add: ac_simps)
qed

lemma count_map_arc:
  "\<forall>x\<in>set to. 0 \<le> x \<Longrightarrow>
     count (mset (map (\<lambda>x. (fr, nat x)) to)) (a, b) = (if a = fr then count_list to (int b) else 0)"
  by (induction to) auto

lemma count_arcs_ms:
  "\<forall>to\<in>set rest. \<forall>x\<in>set to. 0 \<le> x \<Longrightarrow>
     count (arcs_ms rest fr) (a, b) =
       (if fr \<le> a \<and> a < fr + length rest then count_list (rest ! (a - fr)) (int b) else 0)"
proof (induction rest arbitrary: fr)
  case Nil
  then show ?case by simp
next
  case (Cons to rest)
  from Cons.prems have 1: "\<forall>x\<in>set to. 0 \<le> x" and 2: "\<forall>to\<in>set rest. \<forall>x\<in>set to. 0 \<le> x" by simp_all
  have e: "count (arcs_ms (to # rest) fr) (a, b) =
      (if a = fr then count_list to (int b) else 0) +
      (if Suc fr \<le> a \<and> a < Suc fr + length rest then count_list (rest ! (a - Suc fr)) (int b) else 0)"
    by (simp only: arcs_ms.simps count_union count_map_arc[OF 1] Cons.IH[OF 2])
  show ?case
  proof (cases "a = fr")
    case True
    then show ?thesis unfolding e by simp
  next
    case False
    then have "fr \<le> a \<Longrightarrow> (a - fr) = Suc (a - Suc fr)" by simp
    with False show ?thesis unfolding e by auto
  qed
qed

lemma first_unpaired_empty: "\<forall>to\<in>set U. to = [] \<Longrightarrow> first_unpaired U fr = (True, - 1, - 1)"
  by (induction U arbitrary: fr) simp_all

lemma IsUndirected_sym:
  assumes "sym_arcs g"
  shows "IsUndirected g = Inr (True, - 1, - 1)"
proof -
  let ?N = "length g"
  have rng: "\<forall>to\<in>set g. \<forall>x\<in>set to. 0 \<le> x \<and> x < int ?N"
  proof (intro ballI)
    fix to x assume "to \<in> set g" "x \<in> set to"
    then obtain a where "a < ?N" "x \<in> set (g ! a)" by (auto simp: in_set_conv_nth)
    with assms show "0 \<le> x \<and> x < int ?N" by (simp add: sym_arcs_def)
  qed
  then have nn: "\<forall>to\<in>set g. \<forall>x\<in>set to. 0 \<le> x" by blast
  have "pair_inv ?N (replicate ?N []) {#}" by (simp add: pair_inv_def cU_def)
  from pair_nodes_inv[OF this _ rng, of 0] obtain U where
    u: "pair_nodes g 0 (replicate ?N []) = Inr U" "pair_inv ?N U (arcs_ms g 0)" by auto
  have cnt: "count (arcs_ms g 0) (a, b) = count_list (g ! a) (int b)" if "a < ?N" for a b
    using count_arcs_ms[OF nn, of 0 a b] that by simp
  have empty: "U ! a = []" if a: "a < ?N" for a
  proof (rule ccontr)
    assume "U ! a \<noteq> []"
    then obtain x where x: "x \<in> set (U ! a)" by (cases "U ! a") auto
    with u(2) a have xr: "0 \<le> x" "x < int ?N" "x \<noteq> int a" by (auto simp: pair_inv_def)
    define b where "b = nat x"
    from xr have b: "b < ?N" "a \<noteq> b" "int b = x" by (auto simp: b_def)
    from u(2) a b have "cU U a b + count (arcs_ms g 0) (b, a) = cU U b a + count (arcs_ms g 0) (a, b)"
      "cU U a b = 0 \<or> cU U b a = 0" by (auto simp: pair_inv_def)
    moreover from assms a b have "count_list (g ! a) (int b) = count_list (g ! b) (int a)"
      by (simp add: sym_arcs_def)
    ultimately have "cU U a b = 0" using cnt[OF a, of b] cnt[OF b(1), of a] by linarith
    with x b(3) show False by (simp add: cU_def count_list_0_iff)
  qed
  from u(2) have "length U = ?N" by (simp add: pair_inv_def)
  with empty have "\<forall>to\<in>set U. to = []" by (auto simp: in_set_conv_nth)
  from first_unpaired_empty[OF this] u(1) show ?thesis by (simp add: IsUndirected_def)
qed

lemma sym_arcs_empty: "sym_arcs (replicate n [])"
  by (simp add: sym_arcs_def)

text \<open>
  Claim C8. For every FromList whose parents are in bounds (\<open>BoundsOk\<close> answers true),
  \<open>Undirected\<close> returns a graph on the same nodes, and \<open>IsUndirected\<close> of that graph
  answers true, with no unpaired arc to show.
\<close>

theorem Undirected_IsUndirected:
  assumes "fst (FromList_BoundsOk f)"
  shows "\<exists>g. Undirected f = Inr g \<and> length g = length (paths_of f) \<and>
              IsUndirected g = Inr (True, - 1, - 1)"
proof -
  let ?ps = "paths_of f"
  from assms have b: "bounds_ok ?ps (length (replicate (length ?ps) ([] :: NI list)))"
    by (simp add: FromList_BoundsOk_def FromList_BoundsOk_loop_iff)
  from Undirected_loop_sym[OF b _ sym_arcs_empty] obtain g where
    "Undirected f = Inr g" "length g = length ?ps" "sym_arcs g"
    by (auto simp: Undirected_def)
  with IsUndirected_sym[of g] show ?thesis by simp
qed

theorem Undirected_IsUndirected_witness:
  "fst (FromList_BoundsOk \<lparr>Paths = Some [\<lparr>From = - 1, Len = 0\<rparr>, \<lparr>From = 0, Len = 0\<rparr>, \<lparr>From = 0, Len = 0\<rparr>,
                                  \<lparr>From = - 1, Len = 0\<rparr>], Leaves = [], MaxLen = 0\<rparr>)
   \<and> Undirected \<lparr>Paths = Some [\<lparr>From = - 1, Len = 0\<rparr>, \<lparr>From = 0, Len = 0\<rparr>, \<lparr>From = 0, Len = 0\<rparr>,
                                  \<lparr>From = - 1, Len = 0\<rparr>], Leaves = [], MaxLen = 0\<rparr>
       = Inr [[1, 2], [0], [0], []]
   \<and> IsUndirected [[1, 2], [0], [0], []] = Inr (True, - 1, - 1)"
proof -
  let ?f = "\<lparr>Paths = Some [\<lparr>From = - 1, Len = 0\<rparr>, \<lparr>From = 0, Len = 0\<rparr>, \<lparr>From = 0, Len = 0\<rparr>,
                                  \<lparr>From = - 1, Len = 0\<rparr>], Leaves = [], MaxLen = 0\<rparr>"
  have h: "fst (FromList_BoundsOk ?f)" by (simp add: FromList_BoundsOk_def paths_of_def)
  have u: "Undirected ?f = Inr [[1, 2], [0], [0], []]" by (simp add: Undirected_def paths_of_def)
  from Undirected_IsUndirected[OF h] h u show ?thesis by simp
qed

section \<open>Paths of a FromList\<close>

text \<open>
  Modelled from the spec: \<open>PathTo\<close> is in a file that is not part of the sources at hand.
  The spec: walk the parent pointers from the target back to its root and return the
  sequence in root-to-target order; a buffer that is absent or too small is replaced by one
  sized to the recorded path length of the target. Here the path is written into that many
  slots (of the buffer passed in, when it has room, as in \<open>ExampleFromList_PathTo\<close>,
  where a buffer of three slots yields \<open>[3]\<close> for a root): the walk writes each node it
  meets into the last free slot and ends at the root, the node whose parent is -1; the
  result is the part of the buffer that was written. A walk that leaves the slice or needs
  more slots than there are is an index out of range. A target with recorded length 0 has
  the empty path.
\<close>

fun PathTo_loop :: "PathEnd list \<Rightarrow> nat \<Rightarrow> NI \<Rightarrow> NI list \<Rightarrow> error + NI list" where
  "PathTo_loop paths 0 e p = Inl IndexOutOfRange"
| "PathTo_loop paths (Suc n) e p =
     (if length p \<le> n then Inl IndexOutOfRange
      else if e < 0 \<or> int (length paths) \<le> e then Inl IndexOutOfRange
      else if From (paths ! nat e) = - 1 then Inr (drop n (p[n := e]))
      else PathTo_loop paths n (From (paths ! nat e)) (p[n := e]))"

definition PathTo :: "PathEnd list \<Rightarrow> NI \<Rightarrow> NI list \<Rightarrow> error + NI list" where
  "PathTo paths e p =
     (if e < 0 \<or> int (length paths) \<le> e then Inl IndexOutOfRange
      else let n = Len (paths ! nat e)
           in if n = 0 then Inr []
              else if n < 0 then Inl IndexOutOfRange
              else PathTo_loop paths (nat n) e
                     (if n \<le> int (length p) then take (nat n) p else replicate (nat n) 0))"










section \<open>Common ancestors\<close>

text \<open>
  Modelled from the spec: \<open>CommonAncestor\<close> is in a file that is not part of the sources at
  hand. The spec: walk the deeper node up until both are at equal depth, using the recorded
  lengths; then walk both up in lockstep, comparing the nodes, until they match or both
  reach a root; without a match there is no common ancestor, which is the value -1. A walk
  that is at a root has no parent to go on to, so either loop ends without a match when it
  would pass a root; from equal depths both walks are at their roots in the same step.
  Parent pointers with a cycle can keep either loop running for ever, so both loops are
  partial functions, \<open>None\<close> standing for a loop that does not end.
\<close>

partial_function (option) level_up :: "PathEnd list \<Rightarrow> int \<Rightarrow> NI \<Rightarrow> (error + NI) option" where
  "level_up ps bl a =
     (if a < 0 \<or> int (length ps) \<le> a then Some (Inl IndexOutOfRange)
      else if bl < Len (ps ! nat a)
        then (if From (ps ! nat a) < 0 then Some (Inr (- 1)) else level_up ps bl (From (ps ! nat a)))
        else Some (Inr a))"

partial_function (option) lockstep :: "PathEnd list \<Rightarrow> NI \<Rightarrow> NI \<Rightarrow> (error + NI) option" where
  "lockstep ps a b =
     (if a = b then Some (Inr a)
      else if a < 0 \<or> int (length ps) \<le> a \<or> b < 0 \<or> int (length ps) \<le> b then Some (Inl IndexOutOfRange)
      else if From (ps ! nat a) < 0 \<or> From (ps ! nat b) < 0 then Some (Inr (- 1))
      else lockstep ps (From (ps ! nat a)) (From (ps ! nat b)))"

declare level_up.simps [code]
declare lockstep.simps [code]

definition CommonAncestor :: "PathEnd list \<Rightarrow> NI \<Rightarrow> NI \<Rightarrow> (error + NI) option" where
  "CommonAncestor ps a b =
     (if a < 0 \<or> int (length ps) \<le> a \<or> b < 0 \<or> int (length ps) \<le> b then Some (Inl IndexOutOfRange)
      else let (a, b) = (if Len (ps ! nat a) < Len (ps ! nat b) then (b, a) else (a, b))
           in (case level_up ps (Len (ps ! nat b)) a of
                 None \<Rightarrow> None
               | Some (Inl e) \<Rightarrow> Some (Inl e)
               | Some (Inr a') \<Rightarrow> if a' < 0 then Some (Inr (- 1)) else lockstep ps a' b))"
















section \<open>Breadth-first traversal and graph distance\<close>

text \<open>
  \<open>scan_rel lv A ps ps' new\<close> describes what scanning the arcs \<open>A\<close> (pairs of a node and
  one of its neighbours, in order) does to the slice at level \<open>lv\<close>: the nodes \<open>new\<close> are,
  without repetition, the targets of \<open>A\<close> whose \<open>Len\<close> was zero; each now records \<open>lv\<close> and
  a parent it is a neighbour of; all other entries are as before.
\<close>

definition scan_rel :: "nat \<Rightarrow> (NI \<times> NI) list \<Rightarrow> PathEnd list \<Rightarrow> PathEnd list \<Rightarrow> NI list \<Rightarrow> bool" where
  "scan_rel lv A ps ps' new \<longleftrightarrow>
     length ps' = length ps \<and> distinct new \<and>
     (\<forall>v. v \<in> set new \<longleftrightarrow> 0 \<le> v \<and> nat v < length ps \<and> Len (ps ! nat v) = 0 \<and> (\<exists>n. (n, v) \<in> set A)) \<and>
     (\<forall>v\<in>set new. Len (ps' ! nat v) = int lv \<and> (From (ps' ! nat v), v) \<in> set A) \<and>
     (\<forall>i<length ps. int i \<notin> set new \<longrightarrow> ps' ! i = ps ! i)"

lemma scan_rel_nil: "scan_rel lv [] ps ps []"
  by (simp add: scan_rel_def)

lemma scan_rel_skip:
  "0 \<le> nb \<Longrightarrow> nat nb < length ps \<Longrightarrow> Len (ps ! nat nb) \<noteq> 0 \<Longrightarrow> scan_rel lv [(n, nb)] ps ps []"
  by (auto simp: scan_rel_def)

lemma scan_rel_write:
  assumes "0 \<le> nb" "nat nb < length ps" "Len (ps ! nat nb) = 0"
  shows "scan_rel lv [(n, nb)] ps (ps[nat nb := \<lparr>From = n, Len = int lv\<rparr>]) [nb]"
proof -
  have "\<forall>i<length ps. int i \<notin> set [nb] \<longrightarrow> ps[nat nb := \<lparr>From = n, Len = int lv\<rparr>] ! i = ps ! i"
    using assms by (auto simp: nth_list_update)
  moreover have "\<forall>v. v \<in> set [nb] \<longleftrightarrow> 0 \<le> v \<and> nat v < length ps \<and> Len (ps ! nat v) = 0 \<and> (\<exists>m. (m, v) \<in> set [(n, nb)])"
    using assms by auto
  moreover have "\<forall>v\<in>set [nb]. Len (ps[nat nb := \<lparr>From = n, Len = int lv\<rparr>] ! nat v) = int lv \<and>
      (From (ps[nat nb := \<lparr>From = n, Len = int lv\<rparr>] ! nat v), v) \<in> set [(n, nb)]"
    using assms by simp
  ultimately show ?thesis unfolding scan_rel_def by simp
qed

lemma scan_rel_append:
  assumes lv: "0 < lv" and a: "scan_rel lv A ps ps1 n1" and b: "scan_rel lv B ps1 ps2 n2"
  shows "scan_rel lv (A @ B) ps ps2 (n1 @ n2)"
proof -
  from a b have len: "length ps1 = length ps" "length ps2 = length ps" by (simp_all add: scan_rel_def)
  have in1: "v \<in> set n1 \<longleftrightarrow> 0 \<le> v \<and> nat v < length ps \<and> Len (ps ! nat v) = 0 \<and> (\<exists>n. (n, v) \<in> set A)" for v
    using a by (simp add: scan_rel_def)
  have in2: "v \<in> set n2 \<longleftrightarrow> 0 \<le> v \<and> nat v < length ps \<and> Len (ps1 ! nat v) = 0 \<and> (\<exists>n. (n, v) \<in> set B)" for v
    using b len by (simp add: scan_rel_def)
  have w1: "Len (ps1 ! nat v) = int lv" "(From (ps1 ! nat v), v) \<in> set A" if "v \<in> set n1" for v
    using a that by (simp_all add: scan_rel_def)
  have w2: "Len (ps2 ! nat v) = int lv" "(From (ps2 ! nat v), v) \<in> set B" if "v \<in> set n2" for v
    using b that by (simp_all add: scan_rel_def)
  have k1: "ps1 ! i = ps ! i" if "i < length ps" "int i \<notin> set n1" for i
    using a that by (simp add: scan_rel_def)
  have k2: "ps2 ! i = ps1 ! i" if "i < length ps" "int i \<notin> set n2" for i
    using b that len by (simp add: scan_rel_def)
  have disj: "v \<notin> set n2" if "v \<in> set n1" for v
  proof
    assume "v \<in> set n2"
    with in2 have "Len (ps1 ! nat v) = 0" by simp
    with w1(1)[OF that] lv show False by simp
  qed
  have z1: "Len (ps1 ! nat v) = 0 \<longleftrightarrow> Len (ps ! nat v) = 0 \<and> v \<notin> set n1" if "0 \<le> v" "nat v < length ps" for v
  proof (cases "v \<in> set n1")
    case True
    with w1(1)[OF True] lv show ?thesis by simp
  next
    case False
    with that have "int (nat v) \<notin> set n1" by simp
    from k1[OF that(2) this] False show ?thesis by simp
  qed
  have d: "distinct (n1 @ n2)" using a b disj by (auto simp: scan_rel_def)
  have m: "\<forall>v. v \<in> set (n1 @ n2) \<longleftrightarrow>
           0 \<le> v \<and> nat v < length ps \<and> Len (ps ! nat v) = 0 \<and> (\<exists>n. (n, v) \<in> set (A @ B))"
  proof
    fix v
    show "v \<in> set (n1 @ n2) \<longleftrightarrow>
           0 \<le> v \<and> nat v < length ps \<and> Len (ps ! nat v) = 0 \<and> (\<exists>n. (n, v) \<in> set (A @ B))"
    proof (cases "0 \<le> v \<and> nat v < length ps")
      case False
      with in1[of v] in2[of v] show ?thesis by auto
    next
      case True
      then have "Len (ps1 ! nat v) = 0 \<longleftrightarrow> Len (ps ! nat v) = 0 \<and> v \<notin> set n1" using z1 by simp
      with True in1[of v] in2[of v] show ?thesis by auto
    qed
  qed
  have w: "\<forall>v\<in>set (n1 @ n2). Len (ps2 ! nat v) = int lv \<and> (From (ps2 ! nat v), v) \<in> set (A @ B)"
  proof
    fix v assume v: "v \<in> set (n1 @ n2)"
    show "Len (ps2 ! nat v) = int lv \<and> (From (ps2 ! nat v), v) \<in> set (A @ B)"
    proof (cases "v \<in> set n2")
      case True
      with w2[OF True] show ?thesis by simp
    next
      case False
      with v have v1: "v \<in> set n1" by simp
      with in1 have r: "0 \<le> v" "nat v < length ps" by simp_all
      with False have "int (nat v) \<notin> set n2" by simp
      from k2[OF r(2) this] w1[OF v1] show ?thesis by simp
    qed
  qed
  have k: "\<forall>i<length ps. int i \<notin> set (n1 @ n2) \<longrightarrow> ps2 ! i = ps ! i"
    using k1 k2 by simp
  from len d m w k show ?thesis unfolding scan_rel_def by blast
qed

definition arcs_of :: "AdjacencyList \<Rightarrow> NI list \<Rightarrow> (NI \<times> NI) list" where
  "arcs_of g ns = concat (map (\<lambda>n. map (Pair n) (g ! nat n)) ns)"

definition arcs_in :: "AdjacencyList \<Rightarrow> bool" where
  "arcs_in g \<longleftrightarrow> (\<forall>to\<in>set g. \<forall>x\<in>set to. 0 \<le> x \<and> x < int (length g))"

lemma scan_arcs_rel:
  "0 < lv \<Longrightarrow> \<forall>nb\<in>set nbs. 0 \<le> nb \<and> nat nb < length (rp st)
     \<Longrightarrow> \<exists>new st'. scan_arcs n lv nbs (next, st) = Inr (next @ new, st') \<and>
           scan_rel lv (map (Pair n) nbs) (rp st) (rp st') new"
proof (induction nbs arbitrary: "next" st)
  case Nil
  have "scan_arcs n lv [] (next, st) = Inr (next @ [], st)" by simp
  with scan_rel_nil[of lv "rp st"] show ?case by (metis list.simps(8))
next
  case (Cons nb nbs)
  from Cons.prems(2) have nb: "0 \<le> nb" "nat nb < length (rp st)" by simp_all
  then have inb: "\<not> (nb < 0 \<or> int (length (rp st)) \<le> nb)" by linarith
  show ?case
  proof (cases "Len (rp st ! nat nb) = 0")
    case True
    let ?st = "st\<lparr>rp := (rp st)[nat nb := \<lparr>From = n, Len = int lv\<rparr>], wlog := wlog st @ [nb]\<rparr>"
    from Cons.prems(2) have "\<forall>x\<in>set nbs. 0 \<le> x \<and> nat x < length (rp ?st)" by simp
    from Cons.IH[OF Cons.prems(1) this, of "next @ [nb]"] obtain new st' where
      r: "scan_arcs n lv nbs (next @ [nb], ?st) = Inr ((next @ [nb]) @ new, st')"
         "scan_rel lv (map (Pair n) nbs) (rp ?st) (rp st') new" by blast
    from inb True r(1) have e: "scan_arcs n lv (nb # nbs) (next, st) = Inr (next @ (nb # new), st')"
      by simp
    from scan_rel_write[OF nb True, of lv n] have "scan_rel lv [(n, nb)] (rp st) (rp ?st) [nb]" by simp
    from scan_rel_append[OF Cons.prems(1) this r(2)]
    have "scan_rel lv (map (Pair n) (nb # nbs)) (rp st) (rp st') (nb # new)" by simp
    with e show ?thesis by blast
  next
    case False
    from Cons.prems(2) have "\<forall>x\<in>set nbs. 0 \<le> x \<and> nat x < length (rp st)" by simp
    from Cons.IH[OF Cons.prems(1) this, of "next"] obtain new st' where
      r: "scan_arcs n lv nbs (next, st) = Inr (next @ new, st')"
         "scan_rel lv (map (Pair n) nbs) (rp st) (rp st') new" by blast
    from inb False r(1) have e: "scan_arcs n lv (nb # nbs) (next, st) = Inr (next @ new, st')"
      by simp
    from scan_rel_skip[OF nb False, of lv n] have "scan_rel lv [(n, nb)] (rp st) (rp st) []" .
    from scan_rel_append[OF Cons.prems(1) this r(2)]
    have "scan_rel lv (map (Pair n) (nb # nbs)) (rp st) (rp st') new" by simp
    with e show ?thesis by blast
  qed
qed

lemma visit_node_always: "okNodeVisitor cf = None \<Longrightarrow> fst (visit_node cf n w)"
  by (simp add: visit_node_def Let_def)

lemma bfs_node_rel:
  assumes "okNodeVisitor cf = None" and "0 < lv" and "arcs_in g" and "length (rp st) = length g"
    and "0 \<le> n" and "nat n < length g"
  shows "\<exists>new st'. bfs_node cf g lv n (next, st) = Inr (True, next @ new, st') \<and>
           scan_rel lv (map (Pair n) (g ! nat n)) (rp st) (rp st') new"
proof -
  obtain ok w where v: "visit_node cf n (bworld st) = (ok, w)" by (cases "visit_node cf n (bworld st)")
  with visit_node_always[OF assms(1), of n "bworld st"] have ok: ok by simp
  from assms(5,6) have inb: "\<not> (n < 0 \<or> int (length g) \<le> n)" by linarith
  from assms(6) have "g ! nat n \<in> set g" by simp
  have "\<forall>nb\<in>set (g ! nat n). 0 \<le> nb \<and> nat nb < length (rp (st\<lparr>bworld := w\<rparr>))"
  proof
    fix nb assume "nb \<in> set (g ! nat n)"
    with assms(3) \<open>g ! nat n \<in> set g\<close> have "0 \<le> nb" "nb < int (length g)"
      by (simp_all add: arcs_in_def)
    then have "nat nb < length g" by linarith
    with \<open>0 \<le> nb\<close> assms(4) show "0 \<le> nb \<and> nat nb < length (rp (st\<lparr>bworld := w\<rparr>))" by simp
  qed
  from scan_arcs_rel[OF assms(2) this, of n "next"] obtain new st' where
    r: "scan_arcs n lv (g ! nat n) (next, st\<lparr>bworld := w\<rparr>) = Inr (next @ new, st')"
       "scan_rel lv (map (Pair n) (g ! nat n)) (rp (st\<lparr>bworld := w\<rparr>)) (rp st') new" by blast
  from v ok inb r(1) have "bfs_node cf g lv n (next, st) = Inr (True, next @ new, st')"
    by (simp add: bfs_node_def)
  with r(2) show ?thesis by auto
qed

lemma frontier_loop_rel:
  "okNodeVisitor cf = None \<Longrightarrow> 0 < lv \<Longrightarrow> arcs_in g \<Longrightarrow> length (rp st) = length g
     \<Longrightarrow> \<forall>n\<in>set ns. 0 \<le> n \<and> nat n < length g
     \<Longrightarrow> \<exists>new st'. frontier_loop cf g lv ns (next, st) = Inr (True, next @ new, st') \<and>
           scan_rel lv (arcs_of g ns) (rp st) (rp st') new"
proof (induction ns arbitrary: "next" st)
  case Nil
  have "frontier_loop cf g lv [] (next, st) = Inr (True, next @ [], st)" by simp
  moreover have "scan_rel lv (arcs_of g []) (rp st) (rp st) []"
    by (simp add: arcs_of_def scan_rel_nil)
  ultimately show ?case by blast
next
  case (Cons n ns)
  from Cons.prems(5) have n: "0 \<le> n" "nat n < length g"
    and ns: "\<forall>n\<in>set ns. 0 \<le> n \<and> nat n < length g" by simp_all
  from bfs_node_rel[OF Cons.prems(1-4) n, of "next"] obtain new1 st1 where
    r1: "bfs_node cf g lv n (next, st) = Inr (True, next @ new1, st1)"
        "scan_rel lv (map (Pair n) (g ! nat n)) (rp st) (rp st1) new1" by blast
  from r1(2) Cons.prems(4) have l1: "length (rp st1) = length g" by (simp add: scan_rel_def)
  from Cons.IH[OF Cons.prems(1-3) l1 ns, of "next @ new1"] obtain new2 st2 where
    r2: "frontier_loop cf g lv ns (next @ new1, st1) = Inr (True, (next @ new1) @ new2, st2)"
        "scan_rel lv (arcs_of g ns) (rp st1) (rp st2) new2" by blast
  from r1(1) r2(1) have "frontier_loop cf g lv (n # ns) (next, st) = Inr (True, next @ (new1 @ new2), st2)"
    by simp
  moreover from scan_rel_append[OF Cons.prems(2) r1(2) r2(2)]
  have "scan_rel lv (arcs_of g (n # ns)) (rp st) (rp st2) (new1 @ new2)" by (simp add: arcs_of_def)
  ultimately show ?case by blast
qed

lemma frontier_loop_rand_eq:
  "\<forall>i\<in>set is. i < length fr
     \<Longrightarrow> frontier_loop_rand cf g lv fr is acc = frontier_loop cf g lv (map (\<lambda>i. fr ! i) is) acc"
  by (induction "is" arbitrary: acc) (auto split: sum.splits)

definition rand_ok :: "('s, 'r) config \<Rightarrow> bool" where
  "rand_ok cf \<longleftrightarrow> (\<forall>perm. rand cf = Some perm \<longrightarrow> (\<forall>r n. set (fst (perm r n)) = {..<n}))"

lemma frontier_pass_rel:
  assumes "okNodeVisitor cf = None" and "rand_ok cf" and "0 < lv" and "arcs_in g"
    and "length (rp st) = length g" and "\<forall>n\<in>set fr. 0 \<le> n \<and> nat n < length g"
  shows "\<exists>ns new st'. frontier_pass cf g lv fr st = Inr (True, new, st') \<and> set ns = set fr \<and>
           scan_rel lv (arcs_of g ns) (rp st) (rp st') new"
proof (cases "rand cf")
  case None
  from frontier_loop_rel[OF assms(1,3,4,5,6), of "[]"] obtain new st' where
    "frontier_loop cf g lv fr ([], st) = Inr (True, [] @ new, st')"
    "scan_rel lv (arcs_of g fr) (rp st) (rp st') new" by blast
  with None show ?thesis by (auto simp: frontier_pass_def)
next
  case (Some perm)
  let ?r = "perm (rnd (bworld st)) (length fr)"
  let ?st = "st\<lparr>bworld := (bworld st)\<lparr>rnd := snd ?r\<rparr>\<rparr>"
  let ?ns = "map (\<lambda>i. fr ! i) (fst ?r)"
  from assms(2) Some have p: "set (fst ?r) = {..<length fr}" by (simp add: rand_ok_def)
  then have i: "\<forall>i\<in>set (fst ?r). i < length fr" by simp
  have "set ?ns = (\<lambda>i. fr ! i) ` {..<length fr}" by (simp add: p)
  also have "\<dots> = set fr" by (simp add: set_conv_nth image_def Bex_def) blast
  finally have s: "set ?ns = set fr" .
  have ns: "\<forall>n\<in>set ?ns. 0 \<le> n \<and> nat n < length g"
    unfolding s by (rule assms(6))
  have l: "length (rp ?st) = length g" using assms(5) by simp
  from frontier_loop_rel[OF assms(1,3,4) l ns, of "[]"] obtain new st' where
    r: "frontier_loop cf g lv ?ns ([], ?st) = Inr (True, [] @ new, st')"
       "scan_rel lv (arcs_of g ?ns) (rp ?st) (rp st') new" by blast
  from Some r(1) have "frontier_pass cf g lv fr st = Inr (True, new, st')"
    by (simp add: frontier_pass_def Let_def frontier_loop_rand_eq[OF i])
  moreover have "rp ?st = rp st" by simp
  ultimately have "frontier_pass cf g lv fr st = Inr (True, new, st') \<and> set ?ns = set fr \<and>
           scan_rel lv (arcs_of g ?ns) (rp st) (rp st') new" using s r(2) by simp
  then show ?thesis by blast
qed

text \<open>
  Graph distance. \<open>arcs g\<close> is the arc relation of \<open>g\<close>; \<open>dist_at g s v d\<close> holds when
  \<open>d\<close> is the least number of arcs of a path from \<open>s\<close> to \<open>v\<close>; \<open>dist_level g s d\<close> are the
  nodes at distance \<open>d\<close> and \<open>within g s d\<close> those at distance at most \<open>d\<close>.
\<close>

definition arcs :: "AdjacencyList \<Rightarrow> (NI \<times> NI) set" where
  "arcs g = {(u, v). 0 \<le> u \<and> nat u < length g \<and> v \<in> set (g ! nat u)}"

definition dist_at :: "AdjacencyList \<Rightarrow> NI \<Rightarrow> NI \<Rightarrow> nat \<Rightarrow> bool" where
  "dist_at g s v d \<longleftrightarrow> (s, v) \<in> arcs g ^^ d \<and> (\<forall>k<d. (s, v) \<notin> arcs g ^^ k)"

definition dist_level :: "AdjacencyList \<Rightarrow> NI \<Rightarrow> nat \<Rightarrow> NI set" where
  "dist_level g s d = {v. dist_at g s v d}"

definition within :: "AdjacencyList \<Rightarrow> NI \<Rightarrow> nat \<Rightarrow> NI set" where
  "within g s d = {v. \<exists>k\<le>d. (s, v) \<in> arcs g ^^ k}"

lemma level_0: "dist_level g s 0 = {s}"
  by (auto simp: dist_level_def dist_at_def)

lemma within_0: "within g s 0 = {s}"
  by (auto simp: within_def)

lemma level_within: "dist_level g s d \<subseteq> within g s d"
  by (auto simp: dist_level_def dist_at_def within_def)

lemma within_mono: "d \<le> e \<Longrightarrow> within g s d \<subseteq> within g s e"
  by (auto simp: within_def intro: order_trans)

lemma within_Suc_mono: "within g s d \<subseteq> within g s (Suc d)"
  by (rule within_mono) simp

lemma level_unique: "v \<in> dist_level g s d \<Longrightarrow> v \<in> dist_level g s e \<Longrightarrow> d = e"
proof (rule ccontr)
  assume a: "v \<in> dist_level g s d" "v \<in> dist_level g s e" and "d \<noteq> e"
  then consider "d < e" | "e < d" by linarith
  then show False using a by cases (auto simp: dist_level_def dist_at_def)
qed

lemma level_not_within: "v \<in> dist_level g s (Suc d) \<Longrightarrow> v \<notin> within g s d"
  by (auto simp: dist_level_def dist_at_def within_def)

lemma within_level: "v \<in> within g s d \<Longrightarrow> \<exists>k\<le>d. v \<in> dist_level g s k"
proof -
  assume "v \<in> within g s d"
  then obtain k where k: "k \<le> d" "(s, v) \<in> arcs g ^^ k" by (auto simp: within_def)
  define m where "m = (LEAST k. (s, v) \<in> arcs g ^^ k)"
  from k(2) have "(s, v) \<in> arcs g ^^ m" unfolding m_def by (rule LeastI)
  moreover have "\<forall>j<m. (s, v) \<notin> arcs g ^^ j" unfolding m_def by (auto dest: not_less_Least)
  moreover from k(2) have "m \<le> k" unfolding m_def by (rule Least_le)
  ultimately show ?thesis using k(1) by (auto simp: dist_level_def dist_at_def intro!: exI[of _ m])
qed

lemma within_Suc_level: "within g s (Suc d) = within g s d \<union> dist_level g s (Suc d)"
proof
  show "within g s (Suc d) \<subseteq> within g s d \<union> dist_level g s (Suc d)"
  proof
    fix v assume "v \<in> within g s (Suc d)"
    from within_level[OF this] obtain k where k: "k \<le> Suc d" "v \<in> dist_level g s k" by blast
    show "v \<in> within g s d \<union> dist_level g s (Suc d)"
    proof (cases "k = Suc d")
      case True with k(2) show ?thesis by simp
    next
      case False
      with k(1) have "k \<le> d" by simp
      with k(2) level_within[of g s k] within_mono[of k d g s] show ?thesis by blast
    qed
  qed
  show "within g s d \<union> dist_level g s (Suc d) \<subseteq> within g s (Suc d)"
    using within_Suc_mono[of g s d] level_within[of g s "Suc d"] by blast
qed

lemma within_Suc_arcs:
  "within g s (Suc d) = within g s d \<union> {v. \<exists>u\<in>within g s d. (u, v) \<in> arcs g}"
proof
  show "within g s (Suc d) \<subseteq> within g s d \<union> {v. \<exists>u\<in>within g s d. (u, v) \<in> arcs g}"
  proof
    fix v assume "v \<in> within g s (Suc d)"
    then obtain k where k: "k \<le> Suc d" "(s, v) \<in> arcs g ^^ k" by (auto simp: within_def)
    show "v \<in> within g s d \<union> {v. \<exists>u\<in>within g s d. (u, v) \<in> arcs g}"
    proof (cases k)
      case 0
      with k(2) show ?thesis by (auto simp: within_def)
    next
      case (Suc j)
      with k(2) obtain u where u: "(s, u) \<in> arcs g ^^ j" "(u, v) \<in> arcs g" by auto
      from Suc k(1) have "j \<le> d" by simp
      with u(1) have "u \<in> within g s d" by (auto simp: within_def)
      with u(2) show ?thesis by blast
    qed
  qed
  show "within g s d \<union> {v. \<exists>u\<in>within g s d. (u, v) \<in> arcs g} \<subseteq> within g s (Suc d)"
  proof
    fix v assume "v \<in> within g s d \<union> {v. \<exists>u\<in>within g s d. (u, v) \<in> arcs g}"
    then show "v \<in> within g s (Suc d)"
    proof
      assume "v \<in> within g s d"
      with within_Suc_mono[of g s d] show ?thesis by blast
    next
      assume "v \<in> {v. \<exists>u\<in>within g s d. (u, v) \<in> arcs g}"
      then obtain u k where "k \<le> d" "(s, u) \<in> arcs g ^^ k" "(u, v) \<in> arcs g"
        by (auto simp: within_def)
      then have "Suc k \<le> Suc d" "(s, v) \<in> arcs g ^^ Suc k" by auto
      then show ?thesis unfolding within_def by blast
    qed
  qed
qed

lemma level_Suc: "dist_level g s (Suc d) = {v. \<exists>u\<in>dist_level g s d. (u, v) \<in> arcs g} - within g s d"
proof
  show "dist_level g s (Suc d) \<subseteq> {v. \<exists>u\<in>dist_level g s d. (u, v) \<in> arcs g} - within g s d"
  proof
    fix v assume v: "v \<in> dist_level g s (Suc d)"
    then have "(s, v) \<in> arcs g ^^ Suc d" by (simp add: dist_level_def dist_at_def)
    then obtain u where u: "(s, u) \<in> arcs g ^^ d" "(u, v) \<in> arcs g" by auto
    have "\<forall>k<d. (s, u) \<notin> arcs g ^^ k"
    proof (intro allI impI notI)
      fix k assume "k < d" "(s, u) \<in> arcs g ^^ k"
      with u(2) have "Suc k < Suc d" "(s, v) \<in> arcs g ^^ Suc k" by auto
      with v show False unfolding dist_level_def dist_at_def by blast
    qed
    with u(1) have "u \<in> dist_level g s d" by (simp add: dist_level_def dist_at_def)
    with u(2) level_not_within[OF v] show "v \<in> {v. \<exists>u\<in>dist_level g s d. (u, v) \<in> arcs g} - within g s d"
      by blast
  qed
  show "{v. \<exists>u\<in>dist_level g s d. (u, v) \<in> arcs g} - within g s d \<subseteq> dist_level g s (Suc d)"
  proof
    fix v assume "v \<in> {v. \<exists>u\<in>dist_level g s d. (u, v) \<in> arcs g} - within g s d"
    then obtain u where u: "u \<in> dist_level g s d" "(u, v) \<in> arcs g" and nw: "v \<notin> within g s d" by blast
    from u have "(s, v) \<in> arcs g ^^ Suc d" by (auto simp: dist_level_def dist_at_def)
    moreover from nw have "\<forall>k<Suc d. (s, v) \<notin> arcs g ^^ k" by (auto simp: within_def)
    ultimately show "v \<in> dist_level g s (Suc d)" by (simp add: dist_level_def dist_at_def)
  qed
qed

lemma within_closed:
  assumes "dist_level g s (Suc d) = {}"
  shows "within g s (d + j) = within g s d"
proof (induction j)
  case 0
  show ?case by simp
next
  case (Suc j)
  from assms have c: "within g s (Suc d) = within g s d" by (simp add: within_Suc_level)
  have "within g s (d + Suc j) = within g s (d + j) \<union> {v. \<exists>u\<in>within g s (d + j). (u, v) \<in> arcs g}"
    by (simp add: within_Suc_arcs)
  also have "\<dots> = within g s d \<union> {v. \<exists>u\<in>within g s d. (u, v) \<in> arcs g}" by (simp add: Suc.IH)
  also have "\<dots> = within g s (Suc d)" by (simp add: within_Suc_arcs)
  finally show ?case using c by simp
qed

lemma within_in_range:
  assumes "arcs_in g" and "0 \<le> s" and "nat s < length g" and "v \<in> within g s d"
  shows "0 \<le> v \<and> nat v < length g"
proof -
  have "(s, v) \<in> arcs g ^^ k \<Longrightarrow> 0 \<le> v \<and> nat v < length g" for k
  proof (induction k arbitrary: v)
    case 0
    with assms(2,3) show ?case by simp
  next
    case (Suc k)
    then obtain u where "(u, v) \<in> arcs g" by auto
    then have u: "nat u < length g" "v \<in> set (g ! nat u)" by (simp_all add: arcs_def)
    then have "g ! nat u \<in> set g" by simp
    with assms(1) u(2) have "0 \<le> v" "v < int (length g)" by (simp_all add: arcs_in_def)
    then show ?case by linarith
  qed
  with assms(4) show ?thesis by (auto simp: within_def)
qed

lemma in_arcs_of: "(n, v) \<in> set (arcs_of g ns) \<longleftrightarrow> n \<in> set ns \<and> v \<in> set (g ! nat n)"
  by (auto simp: arcs_of_def)

text \<open>
  The invariant of the outer loop when it takes up the frontier of the nodes at distance
  \<open>d\<close>: the entries with a nonzero \<open>Len\<close> are those of the nodes within distance \<open>d\<close>, each
  holding its distance plus one and a parent one level up; the nodes were written in the order
  of their distance.
\<close>

definition levels_ok :: "AdjacencyList \<Rightarrow> NI \<Rightarrow> nat \<Rightarrow> PathEnd list \<Rightarrow> bool" where
  "levels_ok g s d ps \<longleftrightarrow>
     (\<forall>k\<le>d. \<forall>v\<in>dist_level g s k. Len (ps ! nat v) = int k + 1 \<and>
        (0 < k \<longrightarrow> From (ps ! nat v) \<in> dist_level g s (k - 1) \<and> (From (ps ! nat v), v) \<in> arcs g))"

definition order_ok :: "AdjacencyList \<Rightarrow> NI \<Rightarrow> NI list \<Rightarrow> bool" where
  "order_ok g s wl \<longleftrightarrow>
     (\<forall>j<length wl. \<forall>k. wl ! j \<in> dist_level g s (Suc k) \<longrightarrow> within g s k \<subseteq> set (take j wl))"

definition bfs_inv :: "AdjacencyList \<Rightarrow> NI \<Rightarrow> nat \<Rightarrow> NI list \<Rightarrow> ('s, 'r) bfs_state \<Rightarrow> bool" where
  "bfs_inv g s d frontier st \<longleftrightarrow>
     length (rp st) = length g \<and> set frontier = dist_level g s d \<and>
     (\<forall>v. 0 \<le> v \<and> nat v < length g \<longrightarrow> (Len (rp st ! nat v) \<noteq> 0) = (v \<in> within g s d)) \<and>
     rp st ! nat s = \<lparr>From = - 1, Len = 1\<rparr> \<and>
     levels_ok g s d (rp st) \<and> order_ok g s (wlog st) \<and> set (wlog st) = within g s d"

lemma bfs_inv_step:
  assumes inv: "bfs_inv g s d fr st" and ns: "set ns = set fr"
    and sc: "scan_rel (Suc (Suc d)) (arcs_of g ns) (rp st) (rp st') new"
    and wl: "wlog st' = wlog st @ new"
    and g: "arcs_in g" and s: "0 \<le> s" "nat s < length g"
  shows "bfs_inv g s (Suc d) new st'"
proof -
  from inv have len: "length (rp st) = length g" and fr: "set fr = dist_level g s d"
    and nz: "\<And>v. 0 \<le> v \<Longrightarrow> nat v < length g \<Longrightarrow> (Len (rp st ! nat v) \<noteq> 0) = (v \<in> within g s d)"
    and st: "rp st ! nat s = \<lparr>From = - 1, Len = 1\<rparr>"
    and lo: "levels_ok g s d (rp st)" and oo: "order_ok g s (wlog st)"
    and sw: "set (wlog st) = within g s d"
    by (simp_all add: bfs_inv_def)
  from sc len have len': "length (rp st') = length g" by (simp add: scan_rel_def)
  have rng: "0 \<le> v \<and> nat v < length g" if "v \<in> within g s e" for v e
    using within_in_range[OF g s that] .
  have new_iff: "v \<in> set new \<longleftrightarrow> 0 \<le> v \<and> nat v < length g \<and> Len (rp st ! nat v) = 0 \<and>
      (\<exists>n\<in>set ns. v \<in> set (g ! nat n))" for v
    using sc len by (auto simp: scan_rel_def in_arcs_of)
  have new_level: "set new = dist_level g s (Suc d)"
  proof
    show "set new \<subseteq> dist_level g s (Suc d)"
    proof
      fix v assume "v \<in> set new"
      with new_iff obtain n where v: "0 \<le> v" "nat v < length g" "Len (rp st ! nat v) = 0"
        and n: "n \<in> set ns" "v \<in> set (g ! nat n)" by blast
      from n(1) ns fr have nl: "n \<in> dist_level g s d" by simp
      with level_within rng have "0 \<le> n \<and> nat n < length g" by blast
      with n(2) have "(n, v) \<in> arcs g" by (simp add: arcs_def)
      moreover from nz[OF v(1,2)] v(3) have "v \<notin> within g s d" by simp
      ultimately show "v \<in> dist_level g s (Suc d)" using nl by (auto simp: level_Suc)
    qed
    show "dist_level g s (Suc d) \<subseteq> set new"
    proof
      fix v assume v: "v \<in> dist_level g s (Suc d)"
      then obtain u where u: "u \<in> dist_level g s d" "(u, v) \<in> arcs g" and nw: "v \<notin> within g s d"
        by (auto simp: level_Suc)
      from v level_within rng have r: "0 \<le> v" "nat v < length g" by blast+
      from nz[OF r] nw have "Len (rp st ! nat v) = 0" by simp
      moreover from u ns fr have "u \<in> set ns" "v \<in> set (g ! nat u)" by (simp_all add: arcs_def)
      ultimately show "v \<in> set new" using r new_iff by blast
    qed
  qed
  have written: "Len (rp st' ! nat v) = int (Suc (Suc d))" "From (rp st' ! nat v) \<in> set ns"
      "v \<in> set (g ! nat (From (rp st' ! nat v)))" if "v \<in> set new" for v
    using sc that by (auto simp: scan_rel_def in_arcs_of)
  have kept: "rp st' ! nat v = rp st ! nat v" if "0 \<le> v" "nat v < length g" "v \<notin> set new" for v
  proof -
    from that(1,3) have "int (nat v) \<notin> set new" by simp
    with sc that(2) len show ?thesis by (simp add: scan_rel_def)
  qed
  have old_kept: "rp st' ! nat v = rp st ! nat v" if "v \<in> within g s d" for v
  proof -
    from that level_not_within[of v g s d] new_level have "v \<notin> set new" by blast
    with rng[OF that] kept show ?thesis by blast
  qed
  have nz': "\<forall>v. 0 \<le> v \<and> nat v < length g \<longrightarrow> (Len (rp st' ! nat v) \<noteq> 0) = (v \<in> within g s (Suc d))"
  proof (intro allI impI)
    fix v assume r: "0 \<le> v \<and> nat v < length g"
    show "(Len (rp st' ! nat v) \<noteq> 0) = (v \<in> within g s (Suc d))"
    proof (cases "v \<in> set new")
      case True
      with written(1)[OF True] new_level show ?thesis by (simp add: within_Suc_level)
    next
      case False
      with r kept have "rp st' ! nat v = rp st ! nat v" by blast
      with r nz False new_level show ?thesis by (simp add: within_Suc_level)
    qed
  qed
  from s have "s \<in> within g s d" by (auto simp: within_def intro: exI[of _ 0])
  from old_kept[OF this] st have st': "rp st' ! nat s = \<lparr>From = - 1, Len = 1\<rparr>" by simp
  have lo': "levels_ok g s (Suc d) (rp st')"
    unfolding levels_ok_def
  proof (intro allI impI ballI)
    fix k v assume k: "k \<le> Suc d" and v: "v \<in> dist_level g s k"
    show "Len (rp st' ! nat v) = int k + 1 \<and>
        (0 < k \<longrightarrow> From (rp st' ! nat v) \<in> dist_level g s (k - 1) \<and> (From (rp st' ! nat v), v) \<in> arcs g)"
    proof (cases "k = Suc d")
      case True
      with v new_level have vn: "v \<in> set new" by simp
      from written(2)[OF vn] ns fr have p: "From (rp st' ! nat v) \<in> dist_level g s d" by simp
      with level_within rng have "0 \<le> From (rp st' ! nat v) \<and> nat (From (rp st' ! nat v)) < length g"
        by blast
      with written(3)[OF vn] have "(From (rp st' ! nat v), v) \<in> arcs g" by (simp add: arcs_def)
      with written(1)[OF vn] p True show ?thesis by simp
    next
      case False
      with k have kd: "k \<le> d" by simp
      with v level_within[of g s k] within_mono[OF kd, of g s] have "v \<in> within g s d" by blast
      from old_kept[OF this] lo kd v show ?thesis by (simp add: levels_ok_def)
    qed
  qed
  have oo': "order_ok g s (wlog st')"
    unfolding order_ok_def wl
  proof (intro allI impI)
    fix j k assume j: "j < length (wlog st @ new)" and l: "(wlog st @ new) ! j \<in> dist_level g s (Suc k)"
    show "within g s k \<subseteq> set (take j (wlog st @ new))"
    proof (cases "j < length (wlog st)")
      case True
      with l oo have "within g s k \<subseteq> set (take j (wlog st))"
        by (simp add: order_ok_def nth_append)
      with True show ?thesis by simp
    next
      case False
      with j have "(wlog st @ new) ! j \<in> set new" by (simp add: nth_append)
      with new_level have "(wlog st @ new) ! j \<in> dist_level g s (Suc d)" by simp
      from level_unique[OF l this] have "k = d" by simp
      with sw False show ?thesis by auto
    qed
  qed
  have sw': "set (wlog st') = within g s (Suc d)"
    by (simp add: wl sw new_level within_Suc_level)
  from len' new_level nz' st' lo' oo' sw' show ?thesis unfolding bfs_inv_def by blast
qed

lemma level_empty_above:
  assumes "dist_level g s (Suc d) = {}" and "d < k"
  shows "dist_level g s k = {}"
proof (rule ccontr)
  assume "dist_level g s k \<noteq> {}"
  then obtain v where v: "v \<in> dist_level g s k" by blast
  from assms(2) obtain j where k: "k = Suc (d + j)" by (metis less_iff_Suc_add)
  from v level_within have "v \<in> within g s (d + Suc j)" unfolding k by auto
  with within_closed[OF assms(1), of "Suc j"] have "v \<in> within g s d" by simp
  with within_mono[of d "d + j" g s] have "v \<in> within g s (d + j)" by auto
  with level_not_within[of v g s "d + j"] v k show False by simp
qed

lemma bfs_loop_correct:
  "okNodeVisitor cf = None \<Longrightarrow> rand_ok cf \<Longrightarrow> arcs_in g \<Longrightarrow> 0 \<le> s \<Longrightarrow> nat s < length g
     \<Longrightarrow> bfs_inv g s d frontier st \<Longrightarrow> lvl = Suc d
     \<Longrightarrow> \<exists>st' e fr'. bfs_loop cf g frontier lvl st = Inr st' \<and> bfs_inv g s e fr' st' \<and>
           dist_level g s (Suc e) = {}"
proof (induction cf g frontier lvl st arbitrary: d rule: bfs_loop.induct)
  case (1 cf g frontier lvl st)
  let ?st0 = "st\<lparr>maxLen := int lvl, fronts := fronts st @ [frontier]\<rparr>"
  from "1.prems"(6) have inv0: "bfs_inv g s d frontier ?st0" by (simp add: bfs_inv_def)
  then have len0: "length (rp ?st0) = length g" by (simp add: bfs_inv_def)
  have frr: "\<forall>n\<in>set frontier. 0 \<le> n \<and> nat n < length g"
  proof
    fix n assume "n \<in> set frontier"
    with inv0 level_within have "n \<in> within g s d" by (auto simp: bfs_inv_def)
    from within_in_range[OF "1.prems"(3,4,5) this] show "0 \<le> n \<and> nat n < length g" .
  qed
  from frontier_pass_rel[OF "1.prems"(1,2) _ "1.prems"(3) len0 frr, of "Suc lvl"]
  obtain ns new st1 where
    p: "frontier_pass cf g (Suc lvl) frontier ?st0 = Inr (True, new, st1)"
    and ns: "set ns = set frontier"
    and sc: "scan_rel (Suc lvl) (arcs_of g ns) (rp ?st0) (rp st1) new" by auto
  from frontier_pass_frame[OF p] have wl: "wlog st1 = wlog ?st0 @ new" by (simp add: bfs_frame_def)
  from sc "1.prems"(7) have sc': "scan_rel (Suc (Suc d)) (arcs_of g ns) (rp ?st0) (rp st1) new" by simp
  from bfs_inv_step[OF inv0 ns sc' wl "1.prems"(3,4,5)] have inv1: "bfs_inv g s (Suc d) new st1" .
  show ?case
  proof (cases "new = []")
    case True
    with p have "bfs_loop cf g frontier lvl st = Inr st1"
      by (subst bfs_loop.simps) simp
    moreover from inv1 True have l: "dist_level g s (Suc d) = {}" by (simp add: bfs_inv_def)
    then have "dist_level g s (Suc (Suc d)) = {}" by (rule level_empty_above) simp
    ultimately show ?thesis using inv1 by blast
  next
    case False
    with p have e: "bfs_loop cf g frontier lvl st = bfs_loop cf g new (Suc lvl) st1"
      by (subst bfs_loop.simps) simp
    have "\<not> \<not> True" by simp
    from "1.IH"[OF p refl refl this False "1.prems"(1-5) inv1] "1.prems"(7)
    show ?thesis unfolding e by simp
  qed
qed

text \<open>
  \<open>BoundsOk\<close> of \<open>AdjacencyList\<close>: the first arc that leaves the graph, if any. Without
  one the results are true, -1 and the zero value of the named result \<open>to\<close>.
\<close>

fun BoundsOk_arcs :: "NI list \<Rightarrow> nat \<Rightarrow> NI option" where
  "BoundsOk_arcs [] len = None"
| "BoundsOk_arcs (to # tos) len =
     (if to < 0 \<or> int len \<le> to then Some to else BoundsOk_arcs tos len)"

fun BoundsOk_loop :: "NI list list \<Rightarrow> nat \<Rightarrow> nat \<Rightarrow> bool \<times> NI \<times> NI" where
  "BoundsOk_loop [] fr len = (True, - 1, 0)"
| "BoundsOk_loop (to # rest) fr len =
     (case BoundsOk_arcs to len of
        Some t \<Rightarrow> (False, int fr, t)
      | None \<Rightarrow> BoundsOk_loop rest (Suc fr) len)"

definition BoundsOk :: "AdjacencyList \<Rightarrow> bool \<times> NI \<times> NI" where
  "BoundsOk g = BoundsOk_loop g 0 (length g)"

lemma BoundsOk_arcs_None: "BoundsOk_arcs to len = None \<longleftrightarrow> (\<forall>x\<in>set to. 0 \<le> x \<and> x < int len)"
  by (induction to) auto

lemma BoundsOk_loop_True:
  "fst (BoundsOk_loop rest fr len) \<longleftrightarrow> (\<forall>to\<in>set rest. \<forall>x\<in>set to. 0 \<le> x \<and> x < int len)"
proof (induction rest arbitrary: fr)
  case Nil
  show ?case by simp
next
  case (Cons to rest)
  show ?case
  proof (cases "BoundsOk_arcs to len")
    case None
    with Cons.IH[of "Suc fr"] BoundsOk_arcs_None[of to len] show ?thesis by simp
  next
    case (Some t)
    with BoundsOk_arcs_None[of to len] show ?thesis by auto
  qed
qed

lemma BoundsOk_arcs_in: "fst (BoundsOk g) \<longleftrightarrow> arcs_in g"
  by (simp add: BoundsOk_def BoundsOk_loop_True arcs_in_def)

definition fresh_tree :: "('s, 'r) config \<Rightarrow> bool" where
  "fresh_tree cf \<longleftrightarrow> (case fromList cf of None \<Rightarrow> True | Some f \<Rightarrow> Paths f = None)"

lemma bfs_inv_start:
  assumes "0 \<le> s" and "nat s < length g"
  shows "bfs_inv g s 0 [s]
           \<lparr>rp = (replicate (length g) \<lparr>From = 0, Len = 0\<rparr>)[nat s := \<lparr>From = - 1, Len = 1\<rparr>],
            maxLen = m, bworld = w, wlog = [s], fronts = []\<rparr>"
proof -
  let ?ps = "(replicate (length g) \<lparr>From = 0, Len = 0\<rparr>)[nat s := \<lparr>From = - 1, Len = 1\<rparr>]"
  have nz: "\<forall>v. 0 \<le> v \<and> nat v < length g \<longrightarrow> (Len (?ps ! nat v) \<noteq> 0) = (v \<in> within g s 0)"
  proof (intro allI impI)
    fix v assume v: "0 \<le> v \<and> nat v < length g"
    show "(Len (?ps ! nat v) \<noteq> 0) = (v \<in> within g s 0)"
    proof (cases "v = s")
      case True
      with assms show ?thesis by (simp add: within_0)
    next
      case False
      with v assms have "nat s \<noteq> nat v" by auto
      with False v show ?thesis by (simp add: within_0)
    qed
  qed
  have lo: "levels_ok g s 0 ?ps" using assms by (simp add: levels_ok_def level_0)
  have oo: "order_ok g s [s]"
    unfolding order_ok_def
  proof (intro allI impI)
    fix j k assume "j < length [s]" "[s] ! j \<in> dist_level g s (Suc k)"
    then have "s \<in> dist_level g s (Suc k)" by simp
    moreover have "s \<in> dist_level g s 0" by (simp add: level_0)
    ultimately have "Suc k = 0" by (rule level_unique)
    then show "within g s k \<subseteq> set (take j [s])" by simp
  qed
  from nz lo oo assms show ?thesis by (simp add: bfs_inv_def level_0 within_0)
qed

text \<open>
  Claim C1. For a graph whose arcs stay within it (\<open>BoundsOk\<close> answers true) and a start
  node \<open>s\<close> of the graph, a \<open>BreadthFirst\<close> that writes into a freshly allocated FromList
  (no \<open>From\<close> option, or one whose \<open>Paths\<close> is nil), without a conditional node visitor
  and, where a random source is given, with one whose \<open>Perm\<close> yields permutations, returns
  and leaves: the entry \<open>PathEnd{From: -1, Len: 1}\<close> for \<open>s\<close>; for every node at graph
  distance \<open>d\<close> from \<open>s\<close> the \<open>Len\<close> \<open>d + 1\<close> and, when \<open>d > 0\<close>, a \<open>From\<close> that is a node
  at distance \<open>d - 1\<close> with an arc to it; \<open>Len\<close> 0 for every node that cannot be reached
  from \<open>s\<close>. The entries were assigned in the order of \<open>wlog\<close>, in which a node at distance
  \<open>k + 1\<close> comes after all nodes within distance \<open>k\<close>.
\<close>

theorem BreadthFirst_distances:
  assumes bounds: "fst (BoundsOk g)" and s: "0 \<le> s" "s < int (length g)"
    and fresh: "fresh_tree (configure s opt)"
    and novis: "okNodeVisitor (configure s opt) = None"
    and perm: "rand_ok (configure s opt)"
  shows "\<exists>f' st' ps'. BreadthFirst g s opt w = Inr (f', st') \<and> Paths f' = Some ps' \<and>
           length ps' = length g \<and> ps' ! nat s = \<lparr>From = - 1, Len = 1\<rparr> \<and>
           (\<forall>v d. dist_at g s v d \<longrightarrow> Len (ps' ! nat v) = int d + 1 \<and>
              (0 < d \<longrightarrow> dist_at g s (From (ps' ! nat v)) (d - 1) \<and> (From (ps' ! nat v), v) \<in> arcs g)) \<and>
           (\<forall>v. 0 \<le> v \<and> v < int (length g) \<and> (s, v) \<notin> (arcs g)\<^sup>* \<longrightarrow> Len (ps' ! nat v) = 0) \<and>
           (\<forall>j<length (wlog st'). \<forall>k. dist_at g s (wlog st' ! j) (Suc k)
              \<longrightarrow> within g s k \<subseteq> set (take j (wlog st')))"
proof -
  let ?cf = "configure s opt"
  let ?f = "NewFromList (length g)"
  let ?ps = "replicate (length g) \<lparr>From = 0, Len = 0\<rparr>"
  let ?st0 = "\<lparr>rp = ?ps[nat s := \<lparr>From = - 1, Len = 1\<rparr>], maxLen = MaxLen ?f,
              bworld = w, wlog = [s], fronts = []\<rparr>"
  from s have sn: "nat s < length g" by linarith
  from bounds have g: "arcs_in g" by (simp add: BoundsOk_arcs_in)
  from fresh have f: "(case fromList ?cf of
                 None \<Rightarrow> NewFromList (length g)
               | Some f \<Rightarrow> (case Paths f of None \<Rightarrow> NewFromList (length g) | Some ps \<Rightarrow> f)) = ?f"
    by (auto simp: fresh_tree_def split: option.splits)
  have pf: "Paths ?f = Some ?ps" by (simp add: NewFromList_def)
  from bfs_inv_start[OF s(1) sn] have inv0: "bfs_inv g s 0 [s] ?st0" .
  from bfs_loop_correct[OF novis perm g s(1) sn inv0, of 1] obtain st' e fr' where
    l: "bfs_loop ?cf g [s] 1 ?st0 = Inr st'" and inv: "bfs_inv g s e fr' st'"
    and top: "dist_level g s (Suc e) = {}" by auto
  from s have "\<not> (s < 0 \<or> int (length ?ps) \<le> s)" by simp
  with l have run: "BreadthFirst g s opt w = Inr (?f\<lparr>Paths := Some (rp st'), MaxLen := maxLen st'\<rparr>, st')"
    by (simp add: BreadthFirst_def BreadthFirst_cf_def f pf start_configure Let_def)
  from inv have len: "length (rp st') = length g"
    and st: "rp st' ! nat s = \<lparr>From = - 1, Len = 1\<rparr>"
    and nz: "\<And>v. 0 \<le> v \<Longrightarrow> nat v < length g \<Longrightarrow> (Len (rp st' ! nat v) \<noteq> 0) = (v \<in> within g s e)"
    and lo: "levels_ok g s e (rp st')" and oo: "order_ok g s (wlog st')"
    by (simp_all add: bfs_inv_def)
  have le: "d \<le> e" if "dist_at g s v d" for v d
  proof (rule ccontr)
    assume "\<not> d \<le> e"
    then have "e < d" by simp
    from level_empty_above[OF top this] that show False by (simp add: dist_level_def)
  qed
  have 1: "\<forall>v d. dist_at g s v d \<longrightarrow> Len (rp st' ! nat v) = int d + 1 \<and>
              (0 < d \<longrightarrow> dist_at g s (From (rp st' ! nat v)) (d - 1) \<and> (From (rp st' ! nat v), v) \<in> arcs g)"
  proof (intro allI impI)
    fix v d assume d: "dist_at g s v d"
    then have "v \<in> dist_level g s d" by (simp add: dist_level_def)
    with lo le[OF d] show "Len (rp st' ! nat v) = int d + 1 \<and>
              (0 < d \<longrightarrow> dist_at g s (From (rp st' ! nat v)) (d - 1) \<and> (From (rp st' ! nat v), v) \<in> arcs g)"
      by (simp add: levels_ok_def dist_level_def)
  qed
  have 2: "\<forall>v. 0 \<le> v \<and> v < int (length g) \<and> (s, v) \<notin> (arcs g)\<^sup>* \<longrightarrow> Len (rp st' ! nat v) = 0"
  proof (intro allI impI)
    fix v assume v: "0 \<le> v \<and> v < int (length g) \<and> (s, v) \<notin> (arcs g)\<^sup>*"
    then have r: "0 \<le> v" "nat v < length g" by linarith+
    have "v \<notin> within g s e"
    proof
      assume "v \<in> within g s e"
      then obtain k where "(s, v) \<in> arcs g ^^ k" by (auto simp: within_def)
      then have "(s, v) \<in> (arcs g)\<^sup>*" by (rule relpow_imp_rtrancl)
      with v show False by simp
    qed
    with nz[OF r] show "Len (rp st' ! nat v) = 0" by simp
  qed
  have 3: "\<forall>j<length (wlog st'). \<forall>k. dist_at g s (wlog st' ! j) (Suc k)
              \<longrightarrow> within g s k \<subseteq> set (take j (wlog st'))"
    using oo by (simp add: order_ok_def dist_level_def)
  from run len st 1 2 3 show ?thesis by simp
qed

theorem BreadthFirst_distances_witness:
  "fst (BoundsOk [[1, 2], [3], [3], [], [0]]) \<and> (0 :: int) \<le> 0 \<and> (0 :: int) < int (length [[1, 2], [3], [3], [], [0 :: int]])
   \<and> fresh_tree (configure 0 ([] :: (unit, unit) TraverseOption list))
   \<and> okNodeVisitor (configure 0 ([] :: (unit, unit) TraverseOption list)) = None
   \<and> rand (configure 0 ([] :: (unit, unit) TraverseOption list)) = None
   \<and> BreadthFirst [[1, 2], [3], [3], [], [0]] 0 ([] :: (unit, unit) TraverseOption list)
         \<lparr>ust = (), rnd = (), trace = []\<rparr>
       = Inr (\<lparr>Paths = Some [\<lparr>From = - 1, Len = 1\<rparr>, \<lparr>From = 0, Len = 2\<rparr>, \<lparr>From = 0, Len = 2\<rparr>,
                             \<lparr>From = 1, Len = 3\<rparr>, \<lparr>From = 0, Len = 0\<rparr>],
                Leaves = [], MaxLen = 3\<rparr>,
              \<lparr>rp = [\<lparr>From = - 1, Len = 1\<rparr>, \<lparr>From = 0, Len = 2\<rparr>, \<lparr>From = 0, Len = 2\<rparr>,
                     \<lparr>From = 1, Len = 3\<rparr>, \<lparr>From = 0, Len = 0\<rparr>],
                maxLen = 3, bworld = \<lparr>ust = (), rnd = (), trace = []\<rparr>, wlog = [0, 1, 2, 3],
                fronts = [[0], [1, 2], [3]]\<rparr>)"
proof -
  let ?g = "[[1, 2], [3], [3], [], [0 :: int]]"
  let ?opt = "[] :: (unit, unit) TraverseOption list"
  have b: "fst (BoundsOk ?g)" by (simp add: BoundsOk_def)
  have s: "(0 :: int) \<le> 0" "(0 :: int) < int (length ?g)" by simp_all
  have f: "fresh_tree (configure 0 ?opt)" by (simp add: fresh_tree_def configure_def new_config_def)
  have v: "okNodeVisitor (configure 0 ?opt) = None" by (simp add: configure_def new_config_def)
  have r: "rand (configure 0 ?opt) = None" by (simp add: configure_def new_config_def)
  then have p: "rand_ok (configure 0 ?opt)" by (simp add: rand_ok_def)
  have run: "BreadthFirst ?g 0 ?opt \<lparr>ust = (), rnd = (), trace = []\<rparr>
       = Inr (\<lparr>Paths = Some [\<lparr>From = - 1, Len = 1\<rparr>, \<lparr>From = 0, Len = 2\<rparr>, \<lparr>From = 0, Len = 2\<rparr>,
                             \<lparr>From = 1, Len = 3\<rparr>, \<lparr>From = 0, Len = 0\<rparr>],
                Leaves = [], MaxLen = 3\<rparr>,
              \<lparr>rp = [\<lparr>From = - 1, Len = 1\<rparr>, \<lparr>From = 0, Len = 2\<rparr>, \<lparr>From = 0, Len = 2\<rparr>,
                     \<lparr>From = 1, Len = 3\<rparr>, \<lparr>From = 0, Len = 0\<rparr>],
                maxLen = 3, bworld = \<lparr>ust = (), rnd = (), trace = []\<rparr>, wlog = [0, 1, 2, 3],
                fronts = [[0], [1, 2], [3]]\<rparr>)"
    by code_simp
  from BreadthFirst_distances[OF b s f v p, of "\<lparr>ust = (), rnd = (), trace = []\<rparr>"] b s f v r run
  show ?thesis by simp
qed

section \<open>Termination of a depth-first traversal\<close>

text \<open>
  \<open>df\<close> sets the bit of its node before it goes on, and is called from the arc loop on
  nodes whose bit is not set only, so the depth of the recursion is at most the number of
  bits that are not set, which \<open>unset\<close> counts: with that much fuel the recursion bound is
  not reached. \<open>dfs_wf\<close> collects what keeps every index in range: the arcs lead to nodes
  of the graph, \<open>Perm(n)\<close> yields the numbers below \<open>n\<close>, and the bitsets have a bit for
  every node. \<open>df_res wfd st r\<close> describes a result \<open>r\<close> of a call from state \<open>st\<close>:
  a panic only if \<open>wfd\<close> fails, otherwise a state with bitsets of the same sizes and no
  more unset bits.
\<close>

definition unset :: "Bits \<Rightarrow> nat" where
  "unset bs = length (filter (\<lambda>b. \<not> b) bs)"

definition same_size :: "('s, 'r) dfs_state \<Rightarrow> ('s, 'r) dfs_state \<Rightarrow> bool" where
  "same_size st st' \<longleftrightarrow>
     length (vis st') = length (vis st) \<and> map_option length (pbits st') = map_option length (pbits st)"

definition dfs_wf :: "AdjacencyList \<Rightarrow> ('s, 'r) config \<Rightarrow> ('s, 'r) dfs_state \<Rightarrow> bool" where
  "dfs_wf g cf st \<longleftrightarrow>
     arcs_in g \<and> rand_ok cf \<and> length g \<le> length (vis st) \<and>
     (case pbits st of None \<Rightarrow> True | Some pb \<Rightarrow> length g \<le> length pb)"

definition df_res :: "bool \<Rightarrow> ('s, 'r) dfs_state \<Rightarrow> error + bool \<times> ('s, 'r) dfs_state \<Rightarrow> bool" where
  "df_res wfd st r =
     (case r of
        Inl e \<Rightarrow> \<not> wfd
      | Inr (ok, st') \<Rightarrow> same_size st st' \<and> unset (vis st') \<le> unset (vis st))"

lemma unset_set: "i < length bs \<Longrightarrow> \<not> bs ! i \<Longrightarrow> Suc (unset (bs[i := True])) = unset bs"
proof (induction bs arbitrary: i)
  case Nil then show ?case by simp
next
  case (Cons a bs)
  then show ?case by (cases i) (auto simp: unset_def)
qed

lemma unset_New: "unset (New n) = n"
  by (simp add: unset_def New_def)

lemma same_size_refl: "same_size st st"
  by (simp add: same_size_def)

lemma same_size_trans: "same_size st st1 \<Longrightarrow> same_size st1 st2 \<Longrightarrow> same_size st st2"
  by (simp add: same_size_def)

lemma dfs_wf_same: "same_size st st1 \<Longrightarrow> dfs_wf g cf st1 = dfs_wf g cf st"
  by (cases "pbits st"; cases "pbits st1") (auto simp: same_size_def dfs_wf_def)

lemma df_res_Inr: "same_size st st' \<Longrightarrow> unset (vis st') \<le> unset (vis st) \<Longrightarrow> df_res wfd st (Inr (ok, st'))"
  by (simp add: df_res_def)

lemma df_res_Inl: "\<not> wfd \<Longrightarrow> df_res wfd st (Inl e)"
  by (simp add: df_res_def)

lemma df_res_trans:
  assumes "same_size st st1" and "unset (vis st1) \<le> unset (vis st)" and "df_res wf1 st1 r"
    and "wfd \<Longrightarrow> wf1"
  shows "df_res wfd st r"
proof (cases r)
  case (Inl e)
  with assms(3,4) show ?thesis by (auto simp: df_res_def)
next
  case (Inr p)
  obtain ok st' where "p = (ok, st')" by (cases p)
  with Inr assms(1-3) show ?thesis by (auto simp: df_res_def intro: same_size_trans)
qed

lemma set_path_bit_Inr: "set_path_bit pb n v = Inr pb' \<Longrightarrow> map_option length pb' = map_option length pb"
  by (auto simp: set_path_bit_def SetBit_def split: option.splits if_splits sum.splits)

lemma set_path_bit_Inl:
  "set_path_bit pb n v = Inl e \<Longrightarrow> \<exists>bs. pb = Some bs \<and> (n < 0 \<or> int (length bs) \<le> n)"
  by (auto simp: set_path_bit_def SetBit_def split: option.splits if_splits sum.splits)

lemma arc_order_ok: "rand_ok cf \<Longrightarrow> x \<in> set (fst (arc_order cf to w)) \<Longrightarrow> x < length to"
  by (cases "rand cf") (auto simp: arc_order_def rand_ok_def)

lemma df_arcs_returns:
  assumes IH: "\<And>n st. unset (vis st) \<le> k \<Longrightarrow> 0 < k \<Longrightarrow> Bit (vis st) n \<noteq> Inr True
                 \<Longrightarrow> \<exists>r. df cf g k n st = Some r \<and>
                          df_res (dfs_wf g cf st \<and> 0 \<le> n \<and> n < int (length g)) st r"
  shows "unset (vis st) \<le> k
     \<Longrightarrow> \<exists>r. df_arcs cf g k n to xs st = Some r \<and>
              df_res (dfs_wf g cf st \<and> (\<forall>x\<in>set xs. x < length to) \<and>
                      (\<forall>t\<in>set to. 0 \<le> t \<and> t < int (length g))) st r"
proof (induction xs arbitrary: st)
  case Nil
  show ?case by (simp add: df_res_def same_size_def)
next
  case (Cons x xs)
  let ?wf = "\<lambda>st xs. dfs_wf g cf st \<and> (\<forall>x\<in>set xs. x < length to) \<and>
                      (\<forall>t\<in>set to. 0 \<le> t \<and> t < int (length g))"
  obtain ok w where v: "visit_arc cf n (int x) (dworld st) = (ok, w)"
    by (cases "visit_arc cf n (int x) (dworld st)")
  let ?st = "st\<lparr>dworld := w\<rparr>"
  have ss: "same_size st ?st" by (simp add: same_size_def)
  have wfs: "dfs_wf g cf ?st = dfs_wf g cf st" by (rule dfs_wf_same[OF ss])
  show ?case
  proof (cases ok)
    case False
    with v show ?thesis by (simp add: df_res_def same_size_def)
  next
    case True
    note ok = this
    show ?thesis
    proof (cases "length to \<le> x")
      case True
      with v ok show ?thesis by (simp add: df_res_def)
    next
      case False
      then have x: "x < length to" by simp
      show ?thesis
      proof (cases "Bit (vis st) (to ! x)")
        case (Inl e)
        then have "to ! x < 0 \<or> int (length (vis st)) \<le> to ! x"
          by (simp add: Bit_def split: if_splits)
        moreover from x have "to ! x \<in> set to" by simp
        ultimately have "\<not> ?wf st (x # xs)" by (fastforce simp: dfs_wf_def)
        with v ok x Inl show ?thesis by (simp add: df_res_def)
      next
        case (Inr seen)
        show ?thesis
        proof (cases seen)
          case True
          from Cons.prems have "unset (vis ?st) \<le> k" by simp
          from Cons.IH[OF this] obtain r where
            r: "df_arcs cf g k n to xs ?st = Some r" "df_res (?wf ?st xs) ?st r" by blast
          have "df_res (?wf st (x # xs)) st r"
            by (rule df_res_trans[OF ss _ r(2)]) (simp_all add: wfs)
          with v ok x Inr True r(1) show ?thesis by simp
        next
          case False
          with Inr have b: "Bit (vis st) (to ! x) = Inr False" by simp
          then have "nat (to ! x) < length (vis st)" "\<not> vis st ! nat (to ! x)"
            by (auto simp: Bit_def split: if_splits)
          from unset_set[OF this] Cons.prems have k: "0 < k" by simp
          from b have "Bit (vis ?st) (to ! x) \<noteq> Inr True" by simp
          from IH[OF _ k this] Cons.prems obtain r1 where
            r1: "df cf g k (to ! x) ?st = Some r1"
                "df_res (dfs_wf g cf ?st \<and> 0 \<le> to ! x \<and> to ! x < int (length g)) ?st r1" by auto
          show ?thesis
          proof (cases r1)
            case (Inl e)
            with r1(2) have "\<not> (dfs_wf g cf ?st \<and> 0 \<le> to ! x \<and> to ! x < int (length g))"
              by (simp add: df_res_def)
            moreover from x have "to ! x \<in> set to" by simp
            ultimately have "\<not> ?wf st (x # xs)" by (fastforce simp: wfs)
            with v ok x b r1(1) Inl show ?thesis by (simp add: df_res_def)
          next
            case (Inr p)
            obtain ok' st1 where p: "p = (ok', st1)" by (cases p)
            from r1(2) Inr p have s1: "same_size ?st st1" "unset (vis st1) \<le> unset (vis ?st)"
              by (simp_all add: df_res_def)
            from same_size_trans[OF ss s1(1)] have ss1: "same_size st st1" .
            from s1(2) have u1: "unset (vis st1) \<le> unset (vis st)" by simp
            show ?thesis
            proof (cases ok')
              case False
              with v ok x b r1(1) Inr p ss1 u1 show ?thesis by (simp add: df_res_def)
            next
              case True
              from u1 Cons.prems have "unset (vis st1) \<le> k" by simp
              from Cons.IH[OF this] obtain r where
                r: "df_arcs cf g k n to xs st1 = Some r" "df_res (?wf st1 xs) st1 r" by blast
              have "df_res (?wf st (x # xs)) st r"
                by (rule df_res_trans[OF ss1 u1 r(2)]) (simp add: dfs_wf_same[OF ss1])
              with v ok x b r1(1) Inr p True r(1) show ?thesis by simp
            qed
          qed
        qed
      qed
    qed
  qed
qed

lemma df_returns:
  "unset (vis st) \<le> k \<Longrightarrow> 0 < k \<Longrightarrow> Bit (vis st) n \<noteq> Inr True
     \<Longrightarrow> \<exists>r. df cf g k n st = Some r \<and>
              df_res (dfs_wf g cf st \<and> 0 \<le> n \<and> n < int (length g)) st r"
proof (induction k arbitrary: n st)
  case 0
  then show ?case by simp
next
  case (Suc k)
  let ?wf = "dfs_wf g cf st \<and> 0 \<le> n \<and> n < int (length g)"
  show ?case
  proof (cases "SetBit (vis st) n True")
    case (Inl e)
    then have "n < 0 \<or> int (length (vis st)) \<le> n" by (simp add: SetBit_def split: if_splits)
    then have "\<not> ?wf" by (auto simp: dfs_wf_def)
    with Inl show ?thesis by (simp add: df_Suc_arc_order df_res_def del: df.simps)
  next
    case (Inr b1)
    then have n: "0 \<le> n" "nat n < length (vis st)" and b1: "b1 = (vis st)[nat n := True]"
      by (auto simp: SetBit_def split: if_splits)
    with Suc.prems(3) have "\<not> vis st ! nat n" by (auto simp: Bit_def split: if_splits)
    from unset_set[OF n(2) this] b1 have u: "Suc (unset b1) = unset (vis st)" by simp
    with Suc.prems(1) have uk: "unset b1 \<le> k" by simp
    show ?thesis
    proof (cases "set_path_bit (pbits st) n True")
      case (Inl e)
      from set_path_bit_Inl[OF this] have "\<not> ?wf" by (auto simp: dfs_wf_def)
      with Inr Inl show ?thesis by (simp add: df_Suc_arc_order df_res_def del: df.simps)
    next
      case pb: (Inr pb1)
      from set_path_bit_Inr[OF this] have pl: "map_option length pb1 = map_option length (pbits st)" .
      obtain ok w where v: "visit_node cf n (dworld st) = (ok, w)"
        by (cases "visit_node cf n (dworld st)")
      show ?thesis
      proof (cases ok)
        case False
        with Inr pb v b1 pl u show ?thesis
          by (simp add: df_Suc_arc_order df_res_def same_size_def del: df.simps)
      next
        case True
        note ok = this
        show ?thesis
        proof (cases "n < 0 \<or> int (length g) \<le> n")
          case True
          then have "\<not> ?wf" by auto
          with Inr pb v ok True show ?thesis
            by (simp add: df_Suc_arc_order df_res_def del: df.simps)
        next
          case False
          then have ng: "nat n < length g" "n < int (length g)" by linarith+
          let ?to = "g ! nat n"
          let ?xs = "fst (arc_order cf ?to w)"
          let ?st1 = "\<lparr>vis = b1, pbits = pb1, dworld = snd (arc_order cf ?to w)\<rparr>"
          let ?wf1 = "dfs_wf g cf ?st1 \<and> (\<forall>x\<in>set ?xs. x < length ?to) \<and>
                      (\<forall>t\<in>set ?to. 0 \<le> t \<and> t < int (length g))"
          have ss: "same_size st ?st1" using b1 pl by (simp add: same_size_def)
          have u1: "unset (vis ?st1) \<le> unset (vis st)" using u by simp
          have "unset (vis ?st1) \<le> k" using uk by simp
          from df_arcs_returns[of k cf g ?st1 n ?to ?xs, OF Suc.IH this] obtain r where
            r: "df_arcs cf g k n ?to ?xs ?st1 = Some r" "df_res ?wf1 ?st1 r" by blast
          have wf1: "?wf \<Longrightarrow> ?wf1"
          proof -
            assume a: ?wf
            then have 1: "dfs_wf g cf ?st1" by (simp add: dfs_wf_same[OF ss])
            from a have "rand_ok cf" "arcs_in g" by (simp_all add: dfs_wf_def)
            then have 2: "\<forall>x\<in>set ?xs. x < length ?to"
              and 3: "\<forall>t\<in>set ?to. 0 \<le> t \<and> t < int (length g)"
              using ng(1) by (auto simp: arcs_in_def intro: arc_order_ok)
            from 1 2 3 show ?wf1 by simp
          qed
          show ?thesis
          proof (cases r)
            case (Inl e)
            with r(2) have "\<not> ?wf1" by (simp add: df_res_def)
            with wf1 have "\<not> ?wf" by blast
            with Inr pb v ok False r(1) Inl show ?thesis
              by (simp add: df_Suc_arc_order df_res_def del: df.simps)
          next
            case rr: (Inr p)
            obtain ok' st' where p: "p = (ok', st')" by (cases p)
            from r(2) rr p have s1: "same_size ?st1 st'" "unset (vis st') \<le> unset (vis ?st1)"
              by (simp_all add: df_res_def)
            from same_size_trans[OF ss s1(1)] have ss': "same_size st st'" .
            from s1(2) u1 have u': "unset (vis st') \<le> unset (vis st)" by simp
            show ?thesis
            proof (cases ok')
              case False
              with Inr pb v ok \<open>\<not> (n < 0 \<or> int (length g) \<le> n)\<close> r(1) rr p ss' u' show ?thesis
                by (simp add: df_Suc_arc_order df_res_def del: df.simps)
            next
              case True
              show ?thesis
              proof (cases "set_path_bit (pbits st') n False")
                case (Inl e)
                from set_path_bit_Inl[OF this] obtain bs where
                  bs: "pbits st' = Some bs" "n < 0 \<or> int (length bs) \<le> n" by blast
                have "\<not> ?wf"
                proof
                  assume a: ?wf
                  then have "dfs_wf g cf st'" by (simp add: dfs_wf_same[OF ss'])
                  with bs(1) have "length g \<le> length bs" by (simp add: dfs_wf_def)
                  with bs(2) a show False by simp
                qed
                with Inr pb v ok \<open>\<not> (n < 0 \<or> int (length g) \<le> n)\<close> r(1) rr p True Inl show ?thesis
                  by (simp add: df_Suc_arc_order df_res_def del: df.simps)
              next
                case pb': (Inr pb')
                from set_path_bit_Inr[OF this] ss' have "same_size st (st'\<lparr>pbits := pb'\<rparr>)"
                  by (simp add: same_size_def)
                with Inr pb v ok \<open>\<not> (n < 0 \<or> int (length g) \<le> n)\<close> r(1) rr p True pb' u' show ?thesis
                  by (simp add: df_Suc_arc_order df_res_def del: df.simps)
              qed
            qed
          qed
        qed
      qed
    qed
  qed
qed


text \<open>
  The inputs of \<open>DepthFirst\<close> for which no index is out of range: the graph satisfies
  \<open>BoundsOk\<close>, the start node is a node of the graph, \<open>Perm(n)\<close> yields the numbers below
  \<open>n\<close>, and a path bitset has a bit for every node.
\<close>

definition dfs_input_ok :: "AdjacencyList \<Rightarrow> ('s, 'r) config \<Rightarrow> bool" where
  "dfs_input_ok g cf \<longleftrightarrow>
     fst (BoundsOk g) \<and> 0 \<le> start cf \<and> start cf < int (length g) \<and> rand_ok cf \<and>
     (case pathBits cf of None \<Rightarrow> True | Some pb \<Rightarrow> length g \<le> length pb)"

lemma DepthFirst_returns:
  assumes fuel: "length g < fuel" and fresh: "visBits cf = None"
  shows "\<exists>r. df cf g fuel (start cf)
                \<lparr>vis = New (length g), pbits = map_option ClearAll (pathBits cf), dworld = w\<rparr> = Some r \<and>
              DepthFirst_cf g cf fuel w = Some (case r of Inl e \<Rightarrow> Inl e | Inr (ok, st) \<Rightarrow> Inr st) \<and>
              (dfs_input_ok g cf \<longrightarrow> (\<exists>ok st. r = Inr (ok, st)))"
proof -
  let ?st0 = "\<lparr>vis = New (length g), pbits = map_option ClearAll (pathBits cf), dworld = w\<rparr>"
  have 1: "unset (vis ?st0) \<le> fuel" using fuel by (simp add: unset_New)
  have 2: "0 < fuel" using fuel by simp
  have 3: "Bit (vis ?st0) (start cf) \<noteq> Inr True"
  proof (cases "start cf < 0 \<or> int (length g) \<le> start cf")
    case True
    then show ?thesis by (simp add: Bit_def New_def)
  next
    case False
    then have "nat (start cf) < length g" by linarith
    with False show ?thesis by (simp add: Bit_def New_def)
  qed
  from df_returns[OF 1 2 3, of cf g] obtain r where
    r: "df cf g fuel (start cf) ?st0 = Some r"
       "df_res (dfs_wf g cf ?st0 \<and> 0 \<le> start cf \<and> start cf < int (length g)) ?st0 r" by blast
  have run: "DepthFirst_cf g cf fuel w = Some (case r of Inl e \<Rightarrow> Inl e | Inr (ok, st) \<Rightarrow> Inr st)"
    using fresh r(1) by (simp add: DepthFirst_cf_def df_start_def split: sum.splits prod.splits)
  have "\<exists>ok st. r = Inr (ok, st)" if a: "dfs_input_ok g cf"
  proof -
    from a have "dfs_wf g cf ?st0"
      by (cases "pathBits cf") (simp_all add: dfs_input_ok_def dfs_wf_def BoundsOk_arcs_in New_def ClearAll_def)
    with a r(2) show ?thesis by (cases r) (auto simp: df_res_def dfs_input_ok_def)
  qed
  with r(1) run show ?thesis by blast
qed

text \<open>
  Claim C2. In a \<open>DepthFirst\<close> with a conditional node visitor and a fresh visited
  bitset, for every graph, start node and further options, and with more fuel than the
  graph has nodes: the call returns (the recursion bound is not reached), and it returns
  without a panic on the inputs of \<open>dfs_input_ok\<close>. Whenever it returns without a panic
  and the visitor has answered true on the first and the second node visited and false on
  the third, the visitor was invoked on exactly these three nodes, twice before the
  invocation that stopped the traversal, which is the last event of the log (no callback
  is invoked after it); the three nodes are distinct nodes of the graph and the visited
  bitset ends with exactly their three bits set, the bit of the third node included.
\<close>

theorem DepthFirst_stops_on_third_node:
  assumes fuel: "length g < fuel"
    and fresh: "visBits (configure s options) = None"
    and visitor: "okNodeVisitor (configure s options) = Some v"
    and log: "trace w = []"
  shows "\<exists>r. DepthFirst g s options fuel w = Some r \<and>
           (dfs_input_ok g (configure s options) \<longrightarrow> (\<exists>st'. r = Inr st')) \<and>
           (\<forall>st'. r = Inr st' \<longrightarrow>
              take 3 (ok_visits (trace (dworld st'))) = [(n1, True), (n2, True), (n3, False)] \<longrightarrow>
              ok_visits (trace (dworld st')) = [(n1, True), (n2, True), (n3, False)] \<and>
              last (trace (dworld st')) = OkNodeVisit n3 False \<and>
              distinct [n1, n2, n3] \<and> length (vis st') = length g \<and>
              (\<forall>m\<in>{n1, n2, n3}. 0 \<le> m \<and> nat m < length g) \<and>
              (\<forall>i<length g. vis st' ! i \<longleftrightarrow> int i \<in> {n1, n2, n3}))"
proof -
  let ?cf = "configure s options"
  from DepthFirst_returns[OF fuel fresh, of w] obtain r0 where
    r0: "df ?cf g fuel (start ?cf)
           \<lparr>vis = New (length g), pbits = map_option ClearAll (pathBits ?cf), dworld = w\<rparr> = Some r0 \<and>
         DepthFirst_cf g ?cf fuel w = Some (case r0 of Inl e \<Rightarrow> Inl e | Inr (ok, st) \<Rightarrow> Inr st) \<and>
         (dfs_input_ok g ?cf \<longrightarrow> (\<exists>ok st. r0 = Inr (ok, st)))" ..
  note run = r0[THEN conjunct2, THEN conjunct1] and ok = r0[THEN conjunct2, THEN conjunct2]
  let ?r = "case r0 of Inl e \<Rightarrow> Inl e | Inr (ok, st) \<Rightarrow> Inr st"
  from run have 1: "DepthFirst g s options fuel w = Some ?r" by (simp add: DepthFirst_def)
  from ok have 2: "dfs_input_ok g ?cf \<longrightarrow> (\<exists>st'. ?r = Inr st')" by auto
  have 3: "\<forall>st'. ?r = Inr st' \<longrightarrow>
              take 3 (ok_visits (trace (dworld st'))) = [(n1, True), (n2, True), (n3, False)] \<longrightarrow>
              ok_visits (trace (dworld st')) = [(n1, True), (n2, True), (n3, False)] \<and>
              last (trace (dworld st')) = OkNodeVisit n3 False \<and>
              distinct [n1, n2, n3] \<and> length (vis st') = length g \<and>
              (\<forall>m\<in>{n1, n2, n3}. 0 \<le> m \<and> nat m < length g) \<and>
              (\<forall>i<length g. vis st' ! i \<longleftrightarrow> int i \<in> {n1, n2, n3})"
  proof (intro allI impI)
    fix st'
    assume r: "?r = Inr st'"
      and third: "take 3 (ok_visits (trace (dworld st'))) = [(n1, True), (n2, True), (n3, False)]"
    from 1 r have "DepthFirst g s options fuel w = Some (Inr st')" by simp
    from DepthFirst_third_stop[OF this fresh visitor log third]
    show "ok_visits (trace (dworld st')) = [(n1, True), (n2, True), (n3, False)] \<and>
              last (trace (dworld st')) = OkNodeVisit n3 False \<and>
              distinct [n1, n2, n3] \<and> length (vis st') = length g \<and>
              (\<forall>m\<in>{n1, n2, n3}. 0 \<le> m \<and> nat m < length g) \<and>
              (\<forall>i<length g. vis st' ! i \<longleftrightarrow> int i \<in> {n1, n2, n3})" .
  qed
  from 1 2 3 show ?thesis by blast
qed

theorem DepthFirst_stops_on_third_node_witness:
  "DepthFirst [[1, 2], [0, 3], [3], [4], [0], []] 0
     ([OkNodeVisitor (\<lambda>c n. (c < 2, Suc c))] :: (nat, unit) TraverseOption list) 7
     \<lparr>ust = 0, rnd = (), trace = []\<rparr>
   = Some (Inr \<lparr>vis = [True, True, False, True, False, False], pbits = None,
                 dworld = \<lparr>ust = 3, rnd = (),
                           trace = [OkNodeVisit 0 True, OkNodeVisit 1 True, OkNodeVisit 3 False]\<rparr>\<rparr>)
   \<and> take 3 (ok_visits [OkNodeVisit 0 True, OkNodeVisit 1 True, OkNodeVisit 3 False])
       = [(0, True), (1, True), (3, False)]
   \<and> ok_visits [OkNodeVisit 0 True, OkNodeVisit 1 True, OkNodeVisit 3 False]
       = [(0, True), (1, True), (3, False)]
   \<and> last [OkNodeVisit 0 True, OkNodeVisit 1 True, OkNodeVisit 3 False] = OkNodeVisit 3 False
   \<and> fst (BoundsOk [[1, 2], [0, 3], [3], [4], [0], []])"
proof -
  let ?g = "[[1, 2], [0, 3], [3], [4], [0], []] :: AdjacencyList"
  let ?opt = "[OkNodeVisitor (\<lambda>c n. (c < 2, Suc c))] :: (nat, unit) TraverseOption list"
  let ?w = "\<lparr>ust = 0 :: nat, rnd = (), trace = []\<rparr>"
  let ?st = "\<lparr>vis = [True, True, False, True, False, False], pbits = None,
                 dworld = \<lparr>ust = 3 :: nat, rnd = (),
                           trace = [OkNodeVisit 0 True, OkNodeVisit 1 True, OkNodeVisit 3 False]\<rparr>\<rparr>"
  have h0: "length ?g < 7" by simp
  have h1: "DepthFirst ?g 0 ?opt 7 ?w = Some (Inr ?st)"
    by code_simp
  have h2: "visBits (configure 0 ?opt) = None" by (simp add: configure_def new_config_def)
  have h3: "okNodeVisitor (configure 0 ?opt) = Some (\<lambda>c n. (c < 2, Suc c))"
    by (simp add: configure_def new_config_def)
  have h4: "trace ?w = []" by simp
  have h5: "take 3 (ok_visits (trace (dworld ?st))) = [(0, True), (1, True), (3, False)]" by simp
  have h6: "fst (BoundsOk ?g)" by code_simp
  have h7: "dfs_input_ok ?g (configure 0 ?opt)"
    using h6 by (simp add: dfs_input_ok_def configure_def new_config_def rand_ok_def)
  from DepthFirst_stops_on_third_node[OF h0 h2 h3 h4, of 0 1 3] h1 h5 h7
  have "ok_visits (trace (dworld ?st)) = [(0, True), (1, True), (3, False)] \<and>
        last (trace (dworld ?st)) = OkNodeVisit 3 False"
    by auto
  with h1 h5 h6 show ?thesis by simp
qed

section \<open>Recomputing leaves and lengths\<close>

text \<open>
  Modelled from the spec: \<open>RecalcLeaves\<close> and \<open>RecalcLen\<close> are in a file that is not part
  of the sources at hand. The spec on the leaves: reset the bitset to all set, then for
  every node with a non-root parent (a parent other than -1) clear the bit of the parent.
  The spec on the lengths: for every leaf, walk up through the parents, record length 1 at
  the root-most ancestor and increment outward; \<open>MaxLen\<close> becomes the maximum length seen.
  Parent pointers with a cycle keep the walk going for ever: the walk is a partial function
  and \<open>None\<close> stands for a walk that does not end. The walk collects the nodes with the root
  first; \<open>set_lens\<close> records the lengths along them, from 1 on.
\<close>

fun RecalcLeaves_loop :: "PathEnd list \<Rightarrow> Bits \<Rightarrow> error + Bits" where
  "RecalcLeaves_loop [] lv = Inr lv"
| "RecalcLeaves_loop (p # ps) lv =
     (if From p = - 1 then RecalcLeaves_loop ps lv
      else (case SetBit lv (From p) False of
              Inl e \<Rightarrow> Inl e
            | Inr lv' \<Rightarrow> RecalcLeaves_loop ps lv'))"

definition RecalcLeaves :: "FromList \<Rightarrow> error + FromList" where
  "RecalcLeaves f =
     (case RecalcLeaves_loop (paths_of f) (SetAll (New (length (paths_of f)))) of
        Inl e \<Rightarrow> Inl e
      | Inr lv \<Rightarrow> Inr (f\<lparr>Leaves := lv\<rparr>))"

partial_function (option) walk_up :: "PathEnd list \<Rightarrow> NI \<Rightarrow> NI list \<Rightarrow> (error + NI list) option" where
  "walk_up ps n acc =
     (if n < 0 \<or> int (length ps) \<le> n then Some (Inl IndexOutOfRange)
      else if From (ps ! nat n) = - 1 then Some (Inr (n # acc))
      else walk_up ps (From (ps ! nat n)) (n # acc))"

declare walk_up.simps [code]

fun set_lens :: "PathEnd list \<Rightarrow> NI list \<Rightarrow> int \<Rightarrow> PathEnd list" where
  "set_lens ps [] k = ps"
| "set_lens ps (v # vs) k = set_lens (ps[nat v := (ps ! nat v)\<lparr>Len := k\<rparr>]) vs (k + 1)"

fun RecalcLen_loop :: "nat list \<Rightarrow> PathEnd list \<times> int \<Rightarrow> (error + PathEnd list \<times> int) option" where
  "RecalcLen_loop [] acc = Some (Inr acc)"
| "RecalcLen_loop (l # ls) acc =
     (case walk_up (fst acc) (int l) [] of
        None \<Rightarrow> None
      | Some (Inl e) \<Rightarrow> Some (Inl e)
      | Some (Inr chain) \<Rightarrow>
          RecalcLen_loop ls (set_lens (fst acc) chain 1, max (snd acc) (int (length chain))))"

definition RecalcLen :: "FromList \<Rightarrow> (error + FromList) option" where
  "RecalcLen f =
     (case RecalcLen_loop (filter (\<lambda>n. Leaves f ! n) [0..<length (Leaves f)]) (paths_of f, 0) of
        None \<Rightarrow> None
      | Some (Inl e) \<Rightarrow> Some (Inl e)
      | Some (Inr (ps, m)) \<Rightarrow> Some (Inr (f\<lparr>Paths := map_option (\<lambda>_. ps) (Paths f), MaxLen := m\<rparr>)))"

text \<open>
  \<open>tree_ok ps\<close>: every node records a length of at least 1 and is either a root with
  length 1 or has a parent in the slice whose length is one less.
\<close>

definition tree_ok :: "PathEnd list \<Rightarrow> bool" where
  "tree_ok ps \<longleftrightarrow>
     (\<forall>n<length ps. 1 \<le> Len (ps ! n) \<and>
        ((From (ps ! n) = - 1 \<and> Len (ps ! n) = 1) \<or>
         (0 \<le> From (ps ! n) \<and> nat (From (ps ! n)) < length ps \<and>
          Len (ps ! n) = Len (ps ! nat (From (ps ! n))) + 1)))"

lemma walk_up_tree:
  "tree_ok ps \<Longrightarrow> 0 \<le> n \<Longrightarrow> nat n < length ps
     \<Longrightarrow> \<exists>chain. walk_up ps n acc = Some (Inr (chain @ acc)) \<and>
           int (length chain) = Len (ps ! nat n) \<and>
           (\<forall>i<length chain. nat (chain ! i) < length ps \<and> Len (ps ! nat (chain ! i)) = 1 + int i)"
proof (induction "nat (Len (ps ! nat n))" arbitrary: n acc rule: less_induct)
  case less
  from less.prems have inb: "\<not> (n < 0 \<or> int (length ps) \<le> n)" by linarith
  from less.prems(1,3) have t: "1 \<le> Len (ps ! nat n)"
    "(From (ps ! nat n) = - 1 \<and> Len (ps ! nat n) = 1) \<or>
     (0 \<le> From (ps ! nat n) \<and> nat (From (ps ! nat n)) < length ps \<and>
      Len (ps ! nat n) = Len (ps ! nat (From (ps ! nat n))) + 1)"
    by (simp_all add: tree_ok_def)
  show ?case
  proof (cases "From (ps ! nat n) = - 1")
    case True
    with t(2) have l: "Len (ps ! nat n) = 1" by auto
    from True inb have "walk_up ps n acc = Some (Inr ([n] @ acc))"
      by (subst walk_up.simps) simp
    moreover have "int (length [n]) = Len (ps ! nat n)" using l by simp
    moreover have "\<forall>i<length [n]. nat ([n] ! i) < length ps \<and> Len (ps ! nat ([n] ! i)) = 1 + int i"
      using l less.prems(3) by simp
    ultimately show ?thesis by blast
  next
    case False
    let ?p = "From (ps ! nat n)"
    from False t(2) have p: "0 \<le> ?p" "nat ?p < length ps" "Len (ps ! nat n) = Len (ps ! nat ?p) + 1"
      by auto
    from less.prems(1) p(2) have "1 \<le> Len (ps ! nat ?p)" by (simp add: tree_ok_def)
    with p(3) have dec: "nat (Len (ps ! nat ?p)) < nat (Len (ps ! nat n))" by simp
    from less.hyps[OF dec less.prems(1) p(1,2), of "n # acc"] obtain chain where
      c: "walk_up ps ?p (n # acc) = Some (Inr (chain @ n # acc))"
         "int (length chain) = Len (ps ! nat ?p)"
         "\<forall>i<length chain. nat (chain ! i) < length ps \<and> Len (ps ! nat (chain ! i)) = 1 + int i"
      by blast
    from False inb c(1) have "walk_up ps n acc = Some (Inr ((chain @ [n]) @ acc))"
      by (subst walk_up.simps) simp
    moreover from c(2) p(3) have "int (length (chain @ [n])) = Len (ps ! nat n)" by simp
    moreover have "\<forall>i<length (chain @ [n]). nat ((chain @ [n]) ! i) < length ps \<and>
        Len (ps ! nat ((chain @ [n]) ! i)) = 1 + int i"
    proof (intro allI impI)
      fix i assume i: "i < length (chain @ [n])"
      show "nat ((chain @ [n]) ! i) < length ps \<and> Len (ps ! nat ((chain @ [n]) ! i)) = 1 + int i"
      proof (cases "i < length chain")
        case True
        with c(3) show ?thesis by (simp add: nth_append)
      next
        case False
        with i have "i = length chain" by simp
        with c(2) p(3) less.prems(3) show ?thesis by (simp add: nth_append)
      qed
    qed
    ultimately show ?thesis by blast
  qed
qed

lemma set_lens_same:
  "\<forall>i<length chain. nat (chain ! i) < length ps \<and> Len (ps ! nat (chain ! i)) = k + int i
     \<Longrightarrow> set_lens ps chain k = ps"
proof (induction chain arbitrary: k)
  case Nil
  show ?case by simp
next
  case (Cons v vs)
  from Cons.prems have v: "nat v < length ps" "Len (ps ! nat v) = k" by auto
  then have u: "ps[nat v := (ps ! nat v)\<lparr>Len := k\<rparr>] = ps" by (simp add: list_update_same_conv)
  have "\<forall>i<length vs. nat (vs ! i) < length ps \<and> Len (ps ! nat (vs ! i)) = (k + 1) + int i"
  proof (intro allI impI)
    fix i assume "i < length vs"
    then have "Suc i < length (v # vs)" by simp
    with Cons.prems have "nat ((v # vs) ! Suc i) < length ps \<and>
        Len (ps ! nat ((v # vs) ! Suc i)) = k + int (Suc i)" by blast
    then show "nat (vs ! i) < length ps \<and> Len (ps ! nat (vs ! i)) = (k + 1) + int i" by simp
  qed
  from Cons.IH[OF this] u show ?case by simp
qed

lemma RecalcLen_loop_tree:
  "tree_ok ps \<Longrightarrow> \<forall>l\<in>set ls. l < length ps
     \<Longrightarrow> RecalcLen_loop ls (ps, m) = Some (Inr (ps, foldl (\<lambda>m l. max m (Len (ps ! l))) m ls))"
proof (induction ls arbitrary: m)
  case Nil
  show ?case by simp
next
  case (Cons l ls)
  from Cons.prems(2) have l: "nat (int l) < length ps" and ls: "\<forall>l\<in>set ls. l < length ps" by simp_all
  from walk_up_tree[OF Cons.prems(1) _ l, of "[]"] obtain chain where
    c: "walk_up ps (int l) [] = Some (Inr chain)" "int (length chain) = Len (ps ! l)"
       "\<forall>i<length chain. nat (chain ! i) < length ps \<and> Len (ps ! nat (chain ! i)) = 1 + int i"
    by auto
  from set_lens_same[OF c(3)] have "set_lens ps chain 1 = ps" .
  with c(1,2) Cons.IH[OF Cons.prems(1) ls, of "max m (Len (ps ! l))"] show ?case by simp
qed

lemma RecalcLeaves_loop_bits:
  "\<forall>p\<in>set ps. From p = - 1 \<or> (0 \<le> From p \<and> nat (From p) < length lv)
     \<Longrightarrow> \<exists>lv'. RecalcLeaves_loop ps lv = Inr lv' \<and> length lv' = length lv \<and>
           (\<forall>i<length lv. lv' ! i \<longleftrightarrow> lv ! i \<and> (\<forall>p\<in>set ps. From p \<noteq> int i))"
proof (induction ps arbitrary: lv)
  case Nil
  show ?case by simp
next
  case (Cons p ps)
  from Cons.prems have rest: "\<forall>p\<in>set ps. From p = - 1 \<or> (0 \<le> From p \<and> nat (From p) < length lv)"
    by simp
  show ?case
  proof (cases "From p = - 1")
    case True
    from Cons.IH[OF rest] obtain lv' where
      r: "RecalcLeaves_loop ps lv = Inr lv'" "length lv' = length lv"
         "\<forall>i<length lv. lv' ! i \<longleftrightarrow> lv ! i \<and> (\<forall>p\<in>set ps. From p \<noteq> int i)" by blast
    from True r(1) have "RecalcLeaves_loop (p # ps) lv = Inr lv'" by simp
    moreover from True r(3) have "\<forall>i<length lv. lv' ! i \<longleftrightarrow> lv ! i \<and> (\<forall>q\<in>set (p # ps). From q \<noteq> int i)"
      by simp
    ultimately show ?thesis using r(2) by blast
  next
    case False
    with Cons.prems have fp: "0 \<le> From p" "nat (From p) < length lv" by auto
    then have inb: "\<not> (From p < 0 \<or> int (length lv) \<le> From p)" by linarith
    let ?lv = "lv[nat (From p) := False]"
    from rest have "\<forall>p\<in>set ps. From p = - 1 \<or> (0 \<le> From p \<and> nat (From p) < length ?lv)" by simp
    from Cons.IH[OF this] obtain lv' where
      r: "RecalcLeaves_loop ps ?lv = Inr lv'" "length lv' = length ?lv"
         "\<forall>i<length ?lv. lv' ! i \<longleftrightarrow> ?lv ! i \<and> (\<forall>p\<in>set ps. From p \<noteq> int i)" by blast
    from False inb r(1) have "RecalcLeaves_loop (p # ps) lv = Inr lv'" by (simp add: SetBit_def)
    moreover have "\<forall>i<length lv. lv' ! i \<longleftrightarrow> lv ! i \<and> (\<forall>q\<in>set (p # ps). From q \<noteq> int i)"
    proof (intro allI impI)
      fix i assume i: "i < length lv"
      from fp(1) have "nat (From p) = i \<longleftrightarrow> From p = int i" by auto
      with i r(3) show "lv' ! i \<longleftrightarrow> lv ! i \<and> (\<forall>q\<in>set (p # ps). From q \<noteq> int i)"
        by (auto simp: nth_list_update)
    qed
    ultimately show ?thesis using r(2) by auto
  qed
qed

lemma foldl_max_bound:
  "\<forall>l\<in>set ls. f l \<le> (M :: int) \<Longrightarrow> m \<le> M \<Longrightarrow> foldl (\<lambda>m l. max m (f l)) m ls \<le> M"
  by (induction ls arbitrary: m) simp_all

lemma foldl_max_ge: "m \<le> foldl (\<lambda>m l. max m (f l)) (m :: int) ls"
proof (induction ls arbitrary: m)
  case Nil
  show ?case by simp
next
  case (Cons l ls)
  have "m \<le> max m (f l)" by simp
  also have "\<dots> \<le> foldl (\<lambda>m l. max m (f l)) (max m (f l)) ls" by (rule Cons.IH)
  finally show ?case by simp
qed

lemma foldl_max_attained:
  "x \<in> set ls \<Longrightarrow> f x \<le> foldl (\<lambda>m l. max m (f l)) (m :: int) ls"
proof (induction ls arbitrary: m)
  case Nil
  then show ?case by simp
next
  case (Cons l ls)
  show ?case
  proof (cases "x = l")
    case True
    have "f l \<le> max m (f l)" by simp
    also have "\<dots> \<le> foldl (\<lambda>m l. max m (f l)) (max m (f l)) ls" by (rule foldl_max_ge)
    finally show ?thesis using True by simp
  next
    case False
    with Cons.prems have "x \<in> set ls" by simp
    from Cons.IH[OF this] show ?thesis by simp
  qed
qed

lemma recalc_tree:
  assumes ps: "Paths f = Some ps" and t: "tree_ok ps"
    and le: "\<forall>n<length ps. Len (ps ! n) \<le> MaxLen f"
    and ex: "\<exists>n<length ps. Len (ps ! n) = MaxLen f"
  shows "\<exists>f1 f2. RecalcLeaves f = Inr f1 \<and> RecalcLen f1 = Some (Inr f2) \<and>
           Paths f2 = Paths f \<and> MaxLen f2 = MaxLen f"
proof -
  let ?N = "length ps"
  let ?lv0 = "SetAll (New ?N)"
  from ps have po: "paths_of f = ps" by (simp add: paths_of_def)
  have l0: "length ?lv0 = ?N" by (simp add: SetAll_def New_def)
  have pre: "\<forall>p\<in>set ps. From p = - 1 \<or> (0 \<le> From p \<and> nat (From p) < length ?lv0)"
  proof
    fix p assume "p \<in> set ps"
    then obtain n where "n < ?N" "p = ps ! n" by (auto simp: in_set_conv_nth)
    with t l0 show "From p = - 1 \<or> (0 \<le> From p \<and> nat (From p) < length ?lv0)"
      by (auto simp: tree_ok_def)
  qed
  from RecalcLeaves_loop_bits[OF pre] l0 obtain lv where
    lv: "RecalcLeaves_loop ps ?lv0 = Inr lv" "length lv = ?N"
        "\<forall>i<?N. lv ! i \<longleftrightarrow> ?lv0 ! i \<and> (\<forall>p\<in>set ps. From p \<noteq> int i)" by auto
  let ?f1 = "f\<lparr>Leaves := lv\<rparr>"
  from lv(1) po have r1: "RecalcLeaves f = Inr ?f1" by (simp add: RecalcLeaves_def)
  let ?ls = "filter (\<lambda>n. lv ! n) [0..<?N]"
  let ?m = "foldl (\<lambda>m l. max m (Len (ps ! l))) 0 ?ls"
  have "\<forall>l\<in>set ?ls. l < ?N" by simp
  from RecalcLen_loop_tree[OF t this, of 0]
  have loop: "RecalcLen_loop ?ls (ps, 0) = Some (Inr (ps, ?m))" .
  from ex obtain n0 where n0: "n0 < ?N" "Len (ps ! n0) = MaxLen f" by blast
  with t have M1: "1 \<le> MaxLen f" by (auto simp: tree_ok_def)
  have "\<forall>l\<in>set ?ls. Len (ps ! l) \<le> MaxLen f" using le by simp
  from foldl_max_bound[OF this, of 0] M1 have up: "?m \<le> MaxLen f" by simp
  have leaf: "\<forall>p\<in>set ps. From p \<noteq> int n0"
  proof (intro ballI notI)
    fix p assume "p \<in> set ps" and fp: "From p = int n0"
    then obtain j where j: "j < ?N" "p = ps ! j" by (auto simp: in_set_conv_nth)
    from fp have "From p \<noteq> - 1" by simp
    with t j fp have "Len (ps ! j) = Len (ps ! n0) + 1" by (auto simp: tree_ok_def)
    with le j(1) n0(2) show False by auto
  qed
  have "?lv0 ! n0" using n0(1) by (simp add: SetAll_def New_def)
  with lv(3) n0(1) leaf have "lv ! n0" by simp
  with n0(1) have "n0 \<in> set ?ls" by simp
  from foldl_max_attained[OF this, of "\<lambda>l. Len (ps ! l)" 0] n0(2) have "MaxLen f \<le> ?m" by simp
  with up have m: "?m = MaxLen f" by simp
  from loop lv(2) po ps have "RecalcLen ?f1 = Some (Inr (?f1\<lparr>Paths := Some ps, MaxLen := ?m\<rparr>))"
    by (simp add: RecalcLen_def paths_of_def)
  with r1 m ps show ?thesis by simp
qed

text \<open>
  A traversal without a conditional visitor ends on an empty frontier, with \<open>MaxLen\<close> the
  number of frontiers taken up; when it has reached every node, the lengths it has recorded
  form a tree in the sense of \<open>tree_ok\<close> and the greatest of them is \<open>MaxLen\<close>.
\<close>

lemma bfs_loop_deepest:
  "okNodeVisitor cf = None \<Longrightarrow> rand_ok cf \<Longrightarrow> arcs_in g \<Longrightarrow> 0 \<le> s \<Longrightarrow> nat s < length g
     \<Longrightarrow> bfs_inv g s d frontier st \<Longrightarrow> lvl = Suc d \<Longrightarrow> frontier \<noteq> []
     \<Longrightarrow> \<exists>st' e. bfs_loop cf g frontier lvl st = Inr st' \<and> bfs_inv g s (Suc e) [] st' \<and>
           dist_level g s e \<noteq> {} \<and> maxLen st' = int (Suc e)"
proof (induction cf g frontier lvl st arbitrary: d rule: bfs_loop.induct)
  case (1 cf g frontier lvl st)
  let ?st0 = "st\<lparr>maxLen := int lvl, fronts := fronts st @ [frontier]\<rparr>"
  from "1.prems"(6) have inv0: "bfs_inv g s d frontier ?st0" by (simp add: bfs_inv_def)
  then have len0: "length (rp ?st0) = length g" by (simp add: bfs_inv_def)
  have frr: "\<forall>n\<in>set frontier. 0 \<le> n \<and> nat n < length g"
  proof
    fix n assume "n \<in> set frontier"
    with inv0 level_within have "n \<in> within g s d" by (auto simp: bfs_inv_def)
    from within_in_range[OF "1.prems"(3,4,5) this] show "0 \<le> n \<and> nat n < length g" .
  qed
  from frontier_pass_rel[OF "1.prems"(1,2) _ "1.prems"(3) len0 frr, of "Suc lvl"]
  obtain ns new st1 where
    p: "frontier_pass cf g (Suc lvl) frontier ?st0 = Inr (True, new, st1)"
    and ns: "set ns = set frontier"
    and sc: "scan_rel (Suc lvl) (arcs_of g ns) (rp ?st0) (rp st1) new" by auto
  from frontier_pass_frame[OF p] have wl: "wlog st1 = wlog ?st0 @ new"
    and ml: "maxLen st1 = int lvl" by (simp_all add: bfs_frame_def)
  from sc "1.prems"(7) have sc': "scan_rel (Suc (Suc d)) (arcs_of g ns) (rp ?st0) (rp st1) new" by simp
  from bfs_inv_step[OF inv0 ns sc' wl "1.prems"(3,4,5)] have inv1: "bfs_inv g s (Suc d) new st1" .
  show ?case
  proof (cases "new = []")
    case True
    with p have "bfs_loop cf g frontier lvl st = Inr st1"
      by (subst bfs_loop.simps) simp
    moreover from inv0 "1.prems"(8) have "dist_level g s d \<noteq> {}" by (auto simp: bfs_inv_def)
    ultimately show ?thesis using inv1 True ml "1.prems"(7) by auto
  next
    case False
    with p have e: "bfs_loop cf g frontier lvl st = bfs_loop cf g new (Suc lvl) st1"
      by (subst bfs_loop.simps) simp
    have "\<not> \<not> True" by simp
    from "1.IH"[OF p refl refl this False "1.prems"(1-5) inv1 _ False] "1.prems"(7)
    show ?thesis unfolding e by simp
  qed
qed

lemma bfs_inv_tree:
  assumes inv: "bfs_inv g s (Suc e) [] st" and ne: "dist_level g s e \<noteq> {}"
    and g: "arcs_in g" and s: "0 \<le> s" "nat s < length g"
    and all: "\<forall>n<length g. Len (rp st ! n) \<noteq> 0"
  shows "tree_ok (rp st) \<and> (\<forall>n<length g. Len (rp st ! n) \<le> int (Suc e)) \<and>
         (\<exists>n<length g. Len (rp st ! n) = int (Suc e))"
proof -
  from inv have len: "length (rp st) = length g"
    and top: "dist_level g s (Suc e) = {}"
    and nz: "\<And>v. 0 \<le> v \<Longrightarrow> nat v < length g \<Longrightarrow> (Len (rp st ! nat v) \<noteq> 0) = (v \<in> within g s (Suc e))"
    and st: "rp st ! nat s = \<lparr>From = - 1, Len = 1\<rparr>"
    and lo: "levels_ok g s (Suc e) (rp st)"
    by (simp_all add: bfs_inv_def)
  have lev: "\<exists>k\<le>e. int n \<in> dist_level g s k" if "n < length g" for n
  proof -
    from that all nz[of "int n"] have "int n \<in> within g s (Suc e)" by simp
    from within_level[OF this] obtain k where k: "k \<le> Suc e" "int n \<in> dist_level g s k" by blast
    with top have "k \<noteq> Suc e" by auto
    with k show ?thesis by (auto intro: exI[of _ k])
  qed
  have rec: "Len (rp st ! nat v) = int k + 1 \<and>
      (0 < k \<longrightarrow> From (rp st ! nat v) \<in> dist_level g s (k - 1) \<and> (From (rp st ! nat v), v) \<in> arcs g)"
    if "k \<le> Suc e" "v \<in> dist_level g s k" for k v
    using lo that by (simp add: levels_ok_def)
  have t: "tree_ok (rp st)"
    unfolding tree_ok_def len
  proof (intro allI impI)
    fix n assume n: "n < length g"
    from lev[OF n] obtain k where k: "k \<le> e" "int n \<in> dist_level g s k" by blast
    then have ks: "k \<le> Suc e" by simp
    from rec[OF ks k(2)] have ln: "Len (rp st ! n) = int k + 1" by simp
    show "1 \<le> Len (rp st ! n) \<and>
        (From (rp st ! n) = - 1 \<and> Len (rp st ! n) = 1 \<or>
         0 \<le> From (rp st ! n) \<and> nat (From (rp st ! n)) < length g \<and>
         Len (rp st ! n) = Len (rp st ! nat (From (rp st ! n))) + 1)"
    proof (cases k)
      case 0
      with k(2) have "int n = s" by (simp add: level_0)
      then have "n = nat s" by simp
      with st show ?thesis by simp
    next
      case (Suc j)
      with rec[OF ks k(2)] have p: "From (rp st ! n) \<in> dist_level g s j" by simp
      with level_within have "From (rp st ! n) \<in> within g s j" by blast
      from within_in_range[OF g s this] have pr: "0 \<le> From (rp st ! n)" "nat (From (rp st ! n)) < length g"
        by simp_all
      from Suc ks have "j \<le> Suc e" by simp
      from rec[OF this p] have "Len (rp st ! nat (From (rp st ! n))) = int j + 1" by simp
      with ln Suc pr show ?thesis by simp
    qed
  qed
  have b: "\<forall>n<length g. Len (rp st ! n) \<le> int (Suc e)"
  proof (intro allI impI)
    fix n assume n: "n < length g"
    from lev[OF n] obtain k where k: "k \<le> e" "int n \<in> dist_level g s k" by blast
    then have "k \<le> Suc e" by simp
    from rec[OF this k(2)] k(1) show "Len (rp st ! n) \<le> int (Suc e)" by simp
  qed
  from ne obtain v where v: "v \<in> dist_level g s e" by blast
  with level_within have "v \<in> within g s e" by blast
  from within_in_range[OF g s this] have vr: "0 \<le> v" "nat v < length g" by simp_all
  from rec[of e v] v have "Len (rp st ! nat v) = int (Suc e)" by simp
  with vr have "\<exists>n<length g. Len (rp st ! n) = int (Suc e)" by blast
  with t b show ?thesis by blast
qed

text \<open>
  Claim C7, amended. \<open>BreadthFirst\<close> is the traversal of the sources at hand that
  writes a FromList. A \<open>BreadthFirst\<close> from a node of a graph that satisfies \<open>BoundsOk\<close>,
  into a freshly allocated FromList and without a conditional node visitor, returns; and
  when it has reached every node (every entry of \<open>Paths\<close> has a nonzero \<open>Len\<close>),
  \<open>RecalcLeaves\<close> and then \<open>RecalcLen\<close> return and leave \<open>Paths\<close>, and with it every
  \<open>Len\<close>, and \<open>MaxLen\<close> as the traversal produced them. The claim does not hold of
  every FromList produced by a traversal: a node the traversal has not reached keeps the
  zeroed entry, parent 0 and \<open>Len\<close> 0, which makes it a leaf below node 0 for
  \<open>RecalcLeaves\<close>, and \<open>RecalcLen\<close> gives it the length of node 0 plus one, as it does
  to the entries with parent 0 and \<open>Len\<close> 0 of \<open>ExampleFromList_RecalcLen\<close>. In the
  counterexample, the graph of two nodes without arcs traversed from node 0, \<open>Len\<close> of
  node 1 goes from 0 to 2 and \<open>MaxLen\<close> from 1 to 2.
\<close>

theorem RecalcLen_reproduces_traversal:
  assumes bounds: "fst (BoundsOk g)" and s: "0 \<le> s" "s < int (length g)"
    and fresh: "fresh_tree (configure s opt)"
    and novis: "okNodeVisitor (configure s opt) = None"
    and perm: "rand_ok (configure s opt)"
  shows "\<exists>f st. BreadthFirst g s opt w = Inr (f, st) \<and>
           (list_all (\<lambda>p. Len p \<noteq> 0) (paths_of f) \<longrightarrow>
              (\<exists>f1 f2. RecalcLeaves f = Inr f1 \<and> RecalcLen f1 = Some (Inr f2) \<and>
                 Paths f2 = Paths f \<and> MaxLen f2 = MaxLen f))"
proof -
  let ?cf = "configure s opt"
  let ?f = "NewFromList (length g)"
  let ?ps = "replicate (length g) \<lparr>From = 0, Len = 0\<rparr>"
  let ?st0 = "\<lparr>rp = ?ps[nat s := \<lparr>From = - 1, Len = 1\<rparr>], maxLen = MaxLen ?f,
              bworld = w, wlog = [s], fronts = []\<rparr>"
  from s have sn: "nat s < length g" by linarith
  from bounds have g: "arcs_in g" by (simp add: BoundsOk_arcs_in)
  from fresh have f: "(case fromList ?cf of
                 None \<Rightarrow> NewFromList (length g)
               | Some f \<Rightarrow> (case Paths f of None \<Rightarrow> NewFromList (length g) | Some ps \<Rightarrow> f)) = ?f"
    by (auto simp: fresh_tree_def split: option.splits)
  have pf: "Paths ?f = Some ?ps" by (simp add: NewFromList_def)
  from bfs_inv_start[OF s(1) sn] have inv0: "bfs_inv g s 0 [s] ?st0" .
  from bfs_loop_deepest[OF novis perm g s(1) sn inv0, of 1] obtain st' e where
    l: "bfs_loop ?cf g [s] 1 ?st0 = Inr st'" and inv: "bfs_inv g s (Suc e) [] st'"
    and ne: "dist_level g s e \<noteq> {}" and ml: "maxLen st' = int (Suc e)" by auto
  let ?r = "?f\<lparr>Paths := Some (rp st'), MaxLen := maxLen st'\<rparr>"
  from s have "\<not> (s < 0 \<or> int (length ?ps) \<le> s)" by simp
  with l have bf: "BreadthFirst g s opt w = Inr (?r, st')"
    by (simp add: BreadthFirst_def BreadthFirst_cf_def f pf start_configure Let_def)
  have pa: "Paths ?r = Some (rp st')" and mf: "MaxLen ?r = int (Suc e)" using ml by simp_all
  from inv have len: "length (rp st') = length g" by (simp add: bfs_inv_def)
  have "\<exists>f1 f2. RecalcLeaves ?r = Inr f1 \<and> RecalcLen f1 = Some (Inr f2) \<and>
          Paths f2 = Paths ?r \<and> MaxLen f2 = MaxLen ?r"
    if all: "list_all (\<lambda>p. Len p \<noteq> 0) (paths_of ?r)"
  proof -
    from all have "\<forall>n<length g. Len (rp st' ! n) \<noteq> 0"
      by (simp add: paths_of_def list_all_length len)
    from bfs_inv_tree[OF inv ne g s(1) sn this]
    have t: "tree_ok (rp st')" and b: "\<forall>n<length (rp st'). Len (rp st' ! n) \<le> MaxLen ?r"
      and x: "\<exists>n<length (rp st'). Len (rp st' ! n) = MaxLen ?r"
      unfolding mf len by simp_all
    from recalc_tree[OF pa t b x] show ?thesis .
  qed
  with bf show ?thesis by blast
qed

theorem RecalcLen_reproduces_traversal_witness:
  "fst (BoundsOk [[1, 2], [], []]) \<and> (0 :: int) \<le> 0 \<and> (0 :: int) < int (length [[1, 2], [], [] :: int list])
   \<and> fresh_tree (configure 0 ([] :: (unit, unit) TraverseOption list))
   \<and> okNodeVisitor (configure 0 ([] :: (unit, unit) TraverseOption list)) = None
   \<and> rand (configure 0 ([] :: (unit, unit) TraverseOption list)) = None
   \<and> BreadthFirst [[1, 2], [], []] 0 ([] :: (unit, unit) TraverseOption list) \<lparr>ust = (), rnd = (), trace = []\<rparr>
       = Inr (\<lparr>Paths = Some [\<lparr>From = - 1, Len = 1\<rparr>, \<lparr>From = 0, Len = 2\<rparr>, \<lparr>From = 0, Len = 2\<rparr>],
                Leaves = [], MaxLen = 2\<rparr>,
              \<lparr>rp = [\<lparr>From = - 1, Len = 1\<rparr>, \<lparr>From = 0, Len = 2\<rparr>, \<lparr>From = 0, Len = 2\<rparr>],
                maxLen = 2, bworld = \<lparr>ust = (), rnd = (), trace = []\<rparr>, wlog = [0, 1, 2],
                fronts = [[0], [1, 2]]\<rparr>)
   \<and> list_all (\<lambda>p. Len p \<noteq> 0) [\<lparr>From = - 1, Len = 1\<rparr>, \<lparr>From = 0, Len = 2\<rparr>, \<lparr>From = 0, Len = 2\<rparr>]
   \<and> RecalcLeaves \<lparr>Paths = Some [\<lparr>From = - 1, Len = 1\<rparr>, \<lparr>From = 0, Len = 2\<rparr>, \<lparr>From = 0, Len = 2\<rparr>],
                Leaves = [], MaxLen = 2\<rparr>
       = Inr \<lparr>Paths = Some [\<lparr>From = - 1, Len = 1\<rparr>, \<lparr>From = 0, Len = 2\<rparr>, \<lparr>From = 0, Len = 2\<rparr>],
                Leaves = [False, True, True], MaxLen = 2\<rparr>
   \<and> RecalcLen \<lparr>Paths = Some [\<lparr>From = - 1, Len = 1\<rparr>, \<lparr>From = 0, Len = 2\<rparr>, \<lparr>From = 0, Len = 2\<rparr>],
                Leaves = [False, True, True], MaxLen = 2\<rparr>
       = Some (Inr \<lparr>Paths = Some [\<lparr>From = - 1, Len = 1\<rparr>, \<lparr>From = 0, Len = 2\<rparr>, \<lparr>From = 0, Len = 2\<rparr>],
                Leaves = [False, True, True], MaxLen = 2\<rparr>)"
proof -
  let ?g = "[[1, 2], [], [] :: int list]"
  let ?opt = "[] :: (unit, unit) TraverseOption list"
  let ?w = "\<lparr>ust = (), rnd = (), trace = []\<rparr>"
  let ?f = "\<lparr>Paths = Some [\<lparr>From = - 1, Len = 1\<rparr>, \<lparr>From = 0, Len = 2\<rparr>, \<lparr>From = 0, Len = 2\<rparr>],
                Leaves = [], MaxLen = 2\<rparr>"
  let ?st = "\<lparr>rp = [\<lparr>From = - 1, Len = 1\<rparr>, \<lparr>From = 0, Len = 2\<rparr>, \<lparr>From = 0, Len = 2\<rparr>],
                maxLen = 2, bworld = ?w, wlog = [0, 1, 2], fronts = [[0], [1, 2]]\<rparr>"
  have b: "fst (BoundsOk ?g)" by (simp add: BoundsOk_def)
  have s: "(0 :: int) \<le> 0" "(0 :: int) < int (length ?g)" by simp_all
  have f: "fresh_tree (configure 0 ?opt)" by (simp add: fresh_tree_def configure_def new_config_def)
  have v: "okNodeVisitor (configure 0 ?opt) = None" by (simp add: configure_def new_config_def)
  have r: "rand (configure 0 ?opt) = None" by (simp add: configure_def new_config_def)
  then have p: "rand_ok (configure 0 ?opt)" by (simp add: rand_ok_def)
  have run: "BreadthFirst ?g 0 ?opt ?w = Inr (?f, ?st)" by code_simp
  have a: "list_all (\<lambda>p. Len p \<noteq> 0) (paths_of ?f)" by (simp add: paths_of_def)
  have l: "RecalcLeaves ?f = Inr (?f\<lparr>Leaves := [False, True, True]\<rparr>)" by code_simp
  have n: "RecalcLen (?f\<lparr>Leaves := [False, True, True]\<rparr>) = Some (Inr (?f\<lparr>Leaves := [False, True, True]\<rparr>))"
    by code_simp
  from RecalcLen_reproduces_traversal[OF b s f v p, of ?w] run a
  have "\<exists>f1 f2. RecalcLeaves ?f = Inr f1 \<and> RecalcLen f1 = Some (Inr f2) \<and>
          Paths f2 = Paths ?f \<and> MaxLen f2 = MaxLen ?f"
    by (simp only: sum.inject prod.inject simp_thms ex_simps)
  with b s f v r run a l n show ?thesis by (simp add: paths_of_def)
qed

theorem RecalcLen_unreached_counterexample:
  "BreadthFirst [[], []] 0 ([] :: (unit, unit) TraverseOption list) \<lparr>ust = (), rnd = (), trace = []\<rparr>
       = Inr (\<lparr>Paths = Some [\<lparr>From = - 1, Len = 1\<rparr>, \<lparr>From = 0, Len = 0\<rparr>], Leaves = [], MaxLen = 1\<rparr>,
              \<lparr>rp = [\<lparr>From = - 1, Len = 1\<rparr>, \<lparr>From = 0, Len = 0\<rparr>],
                maxLen = 1, bworld = \<lparr>ust = (), rnd = (), trace = []\<rparr>, wlog = [0], fronts = [[0]]\<rparr>)
   \<and> RecalcLeaves \<lparr>Paths = Some [\<lparr>From = - 1, Len = 1\<rparr>, \<lparr>From = 0, Len = 0\<rparr>], Leaves = [], MaxLen = 1\<rparr>
       = Inr \<lparr>Paths = Some [\<lparr>From = - 1, Len = 1\<rparr>, \<lparr>From = 0, Len = 0\<rparr>], Leaves = [False, True], MaxLen = 1\<rparr>
   \<and> RecalcLen \<lparr>Paths = Some [\<lparr>From = - 1, Len = 1\<rparr>, \<lparr>From = 0, Len = 0\<rparr>], Leaves = [False, True], MaxLen = 1\<rparr>
       = Some (Inr \<lparr>Paths = Some [\<lparr>From = - 1, Len = 1\<rparr>, \<lparr>From = 0, Len = 2\<rparr>],
                     Leaves = [False, True], MaxLen = 2\<rparr>)
   \<and> [\<lparr>From = - 1, Len = 1\<rparr>, \<lparr>From = 0, Len = 2\<rparr>] \<noteq> [\<lparr>From = - 1, Len = 1\<rparr>, \<lparr>From = 0, Len = 0\<rparr>]
   \<and> (2 :: int) \<noteq> 1"
proof -
  have "BreadthFirst [[], []] 0 ([] :: (unit, unit) TraverseOption list) \<lparr>ust = (), rnd = (), trace = []\<rparr>
       = Inr (\<lparr>Paths = Some [\<lparr>From = - 1, Len = 1\<rparr>, \<lparr>From = 0, Len = 0\<rparr>], Leaves = [], MaxLen = 1\<rparr>,
              \<lparr>rp = [\<lparr>From = - 1, Len = 1\<rparr>, \<lparr>From = 0, Len = 0\<rparr>],
                maxLen = 1, bworld = \<lparr>ust = (), rnd = (), trace = []\<rparr>, wlog = [0], fronts = [[0]]\<rparr>)"
    by code_simp
  moreover have "RecalcLeaves \<lparr>Paths = Some [\<lparr>From = - 1, Len = 1\<rparr>, \<lparr>From = 0, Len = 0\<rparr>], Leaves = [], MaxLen = 1\<rparr>
       = Inr \<lparr>Paths = Some [\<lparr>From = - 1, Len = 1\<rparr>, \<lparr>From = 0, Len = 0\<rparr>], Leaves = [False, True], MaxLen = 1\<rparr>"
    by code_simp
  moreover have "RecalcLen \<lparr>Paths = Some [\<lparr>From = - 1, Len = 1\<rparr>, \<lparr>From = 0, Len = 0\<rparr>], Leaves = [False, True], MaxLen = 1\<rparr>
       = Some (Inr \<lparr>Paths = Some [\<lparr>From = - 1, Len = 1\<rparr>, \<lparr>From = 0, Len = 2\<rparr>],
                     Leaves = [False, True], MaxLen = 2\<rparr>)"
    by code_simp
  moreover have "[\<lparr>From = - 1, Len = 1\<rparr>, \<lparr>From = 0, Len = 2\<rparr>] \<noteq> [\<lparr>From = - 1, Len = 1\<rparr>, \<lparr>From = 0, Len = 0\<rparr>]"
    by simp
  ultimately show ?thesis by (simp only: simp_thms)
qed

section \<open>The examples of the tests\<close>

text \<open>
  The operations on a FromList that are modelled from the spec, run on the examples of
  \<open>fromlist_test.go\<close>; the results are the outputs the examples expect. In the example
  of \<open>RecalcLen\<close> every entry starts with \<open>Len\<close> 0, and the nodes whose parent is node 0
  end with \<open>Len\<close> 2.
\<close>

lemma ExampleFromList_BoundsOk:
  "FromList_BoundsOk \<lparr>Paths = Some [\<lparr>From = - 1, Len = 0\<rparr>, \<lparr>From = 0, Len = 0\<rparr>, \<lparr>From = 0, Len = 0\<rparr>],
                      Leaves = [], MaxLen = 0\<rparr> = (True, - 1)
   \<and> FromList_BoundsOk \<lparr>Paths = Some [\<lparr>From = 9, Len = 0\<rparr>, \<lparr>From = 0, Len = 0\<rparr>, \<lparr>From = 0, Len = 0\<rparr>],
                      Leaves = [], MaxLen = 0\<rparr> = (False, 0)"
  by code_simp

lemma ExampleFromList_CommonAncestor:
  "CommonAncestor [\<lparr>From = 1, Len = 3\<rparr>, \<lparr>From = 4, Len = 2\<rparr>, \<lparr>From = 1, Len = 3\<rparr>, \<lparr>From = 0, Len = 4\<rparr>,
                   \<lparr>From = - 1, Len = 1\<rparr>] 2 3 = Some (Inr 1)"
  by code_simp

lemma ExamplePathTo:
  "PathTo [\<lparr>From = 1, Len = 3\<rparr>, \<lparr>From = 4, Len = 2\<rparr>, \<lparr>From = 1, Len = 3\<rparr>, \<lparr>From = - 1, Len = 1\<rparr>,
           \<lparr>From = - 1, Len = 1\<rparr>] 1 [] = Inr [4, 1]"
  by code_simp

lemma ExampleFromList_PathTo:
  "PathTo [\<lparr>From = 1, Len = 3\<rparr>, \<lparr>From = 4, Len = 2\<rparr>, \<lparr>From = 1, Len = 3\<rparr>, \<lparr>From = - 1, Len = 1\<rparr>,
           \<lparr>From = - 1, Len = 1\<rparr>] 0 [0, 0, 0] = Inr [4, 1, 0]
   \<and> PathTo [\<lparr>From = 1, Len = 3\<rparr>, \<lparr>From = 4, Len = 2\<rparr>, \<lparr>From = 1, Len = 3\<rparr>, \<lparr>From = - 1, Len = 1\<rparr>,
           \<lparr>From = - 1, Len = 1\<rparr>] 2 [0, 0, 0] = Inr [4, 1, 2]
   \<and> PathTo [\<lparr>From = 1, Len = 3\<rparr>, \<lparr>From = 4, Len = 2\<rparr>, \<lparr>From = 1, Len = 3\<rparr>, \<lparr>From = - 1, Len = 1\<rparr>,
           \<lparr>From = - 1, Len = 1\<rparr>] 3 [0, 0, 0] = Inr [3]"
  by code_simp

lemma ExampleFromList_RecalcLeaves:
  "RecalcLeaves \<lparr>Paths = Some [\<lparr>From = - 1, Len = 0\<rparr>, \<lparr>From = 0, Len = 0\<rparr>, \<lparr>From = 0, Len = 0\<rparr>,
                                \<lparr>From = 2, Len = 0\<rparr>], Leaves = [], MaxLen = 0\<rparr>
   = Inr \<lparr>Paths = Some [\<lparr>From = - 1, Len = 0\<rparr>, \<lparr>From = 0, Len = 0\<rparr>, \<lparr>From = 0, Len = 0\<rparr>,
                         \<lparr>From = 2, Len = 0\<rparr>], Leaves = [False, True, False, True], MaxLen = 0\<rparr>"
  by code_simp

lemma ExampleFromList_RecalcLen:
  "RecalcLen \<lparr>Paths = Some [\<lparr>From = - 1, Len = 0\<rparr>, \<lparr>From = 0, Len = 0\<rparr>, \<lparr>From = 0, Len = 0\<rparr>,
                             \<lparr>From = 2, Len = 0\<rparr>], Leaves = [False, True, False, True], MaxLen = 0\<rparr>
   = Some (Inr \<lparr>Paths = Some [\<lparr>From = - 1, Len = 1\<rparr>, \<lparr>From = 0, Len = 2\<rparr>, \<lparr>From = 0, Len = 2\<rparr>,
                               \<lparr>From = 2, Len = 3\<rparr>], Leaves = [False, True, False, True], MaxLen = 3\<rparr>)"
  by code_simp

lemma ExampleFromList_Undirected:
  "Undirected \<lparr>Paths = Some [\<lparr>From = - 1, Len = 0\<rparr>, \<lparr>From = 0, Len = 0\<rparr>, \<lparr>From = 0, Len = 0\<rparr>,
                              \<lparr>From = - 1, Len = 0\<rparr>], Leaves = [], MaxLen = 0\<rparr>
   = Inr [[1, 2], [0], [0], []]
   \<and> IsUndirected [[1, 2], [0], [0], []] = Inr (True, - 1, - 1)"
  by code_simp

lemma TestFromList_Undirected:
  "Undirected \<lparr>Paths = Some [\<lparr>From = 0, Len = 0\<rparr>], Leaves = [], MaxLen = 0\<rparr> = Inr [[0]]"
  by code_simp

end
